theory Spec2Isabelle
  imports Main
begin

section \<open>Statements, events and machine state\<close>

text \<open>
  The programs of the repository are straight-line sequences of a handful of statements,
  run by one main thread and (in the asynchronous variants) two worker threads created by
  \<^verbatim>\<open>std::async\<close>. Each thread's code is the list of the statements it has still
  to execute; a function call is inlined at its call site. Time is counted in milliseconds,
  the unit of the \<^verbatim>\<open>sleep_for\<close> arguments.
\<close>

type_synonym tid = nat

datatype stmt =
    Cout string      \<comment> \<open>one insertion \<^verbatim>\<open>std::cout << x\<close>\<close>
  | CoutCount        \<comment> \<open>\<^verbatim>\<open>std::cout << duration.count()\<close>, with the \<^verbatim>\<open>duration_cast\<close> before it\<close>
  | SleepFor nat     \<comment> \<open>\<^verbatim>\<open>std::this_thread::sleep_for(std::chrono::milliseconds(d))\<close>\<close>
  | LockGuard        \<comment> \<open>\<^verbatim>\<open>std::lock_guard<std::mutex> lock(coutMutex)\<close>\<close>
  | Release          \<comment> \<open>the end of the block that holds the \<^verbatim>\<open>lock_guard\<close>\<close>
  | NowStart         \<comment> \<open>\<^verbatim>\<open>auto start = high_resolution_clock::now()\<close>\<close>
  | NowStop          \<comment> \<open>\<^verbatim>\<open>auto stop = high_resolution_clock::now()\<close>\<close>
  | Async tid        \<comment> \<open>\<^verbatim>\<open>std::async(lambda)\<close>: the lambda is the code of thread \<open>tid\<close>\<close>
  | Get tid          \<comment> \<open>\<^verbatim>\<open>future.get()\<close> on the future of thread \<open>tid\<close>\<close>
  | Return int       \<comment> \<open>\<^verbatim>\<open>return r\<close> of \<^verbatim>\<open>main\<close>\<close>

record event =
  ev_time :: nat
  ev_tid :: tid
  ev_stmt :: stmt
  ev_out :: string

record state =
  clock :: nat
  code :: "tid \<Rightarrow> stmt list"
  launched :: "tid \<Rightarrow> bool"
  wake :: "tid \<Rightarrow> nat option"
  mutex :: "tid option"
  start :: nat
  stop :: nat
  exit_code :: "int option"
  trace :: "event list"

subsection \<open>Library functions used by the programs\<close>

definition endl :: string where
  "endl = [CHR 0x0A]"

definition digit :: "nat \<Rightarrow> char" where
  "digit n = ''0123456789'' ! n"

fun show_nat :: "nat \<Rightarrow> string" where
  "show_nat n = (if n < 10 then [digit n] else show_nat (n div 10) @ [digit (n mod 10)])"

declare show_nat.simps [simp del]

definition show_int :: "int \<Rightarrow> string" where
  "show_int i = (if i < 0 then CHR ''-'' # show_nat (nat (- i)) else show_nat (nat i))"

text \<open>\<^verbatim>\<open>duration_cast<std::chrono::seconds>\<close> of a millisecond count: integer division
  that truncates toward zero.\<close>

definition duration_cast_seconds :: "int \<Rightarrow> int" where
  "duration_cast_seconds d = (if 0 \<le> d then d div 1000 else - ((- d) div 1000))"

text \<open>\<^verbatim>\<open>std::format("Running program , {}...", programId)\<close>\<close>

definition format_banner :: "int \<Rightarrow> string" where
  "format_banner programId = ''Running program , '' @ show_int programId @ ''...''"

subsection \<open>One step of one thread\<close>

definition emit :: "tid \<Rightarrow> stmt \<Rightarrow> string \<Rightarrow> state \<Rightarrow> state" where
  "emit t c x s = s\<lparr>trace := trace s @ [\<lparr>ev_time = clock s, ev_tid = t, ev_stmt = c, ev_out = x\<rparr>],
                    code := (code s)(t := tl (code s t))\<rparr>"

definition count_text :: "state \<Rightarrow> string" where
  "count_text s = show_int (duration_cast_seconds (int (stop s) - int (start s)))"

fun exec_stmt :: "tid \<Rightarrow> stmt \<Rightarrow> state \<Rightarrow> state option" where
  "exec_stmt t (Cout x) s = Some (emit t (Cout x) x s)"
| "exec_stmt t CoutCount s = Some (emit t CoutCount (count_text s) s)"
| "exec_stmt t (SleepFor d) s =
     (case wake s t of
        None \<Rightarrow> Some (s\<lparr>wake := (wake s)(t \<mapsto> clock s + d)\<rparr>)
      | Some w \<Rightarrow> if w \<le> clock s
                  then Some (emit t (SleepFor d) [] (s\<lparr>wake := (wake s)(t := None)\<rparr>))
                  else None)"
| "exec_stmt t LockGuard s =
     (if mutex s = None then Some (emit t LockGuard [] (s\<lparr>mutex := Some t\<rparr>)) else None)"
| "exec_stmt t Release s = Some (emit t Release [] (s\<lparr>mutex := None\<rparr>))"
| "exec_stmt t NowStart s = Some (emit t NowStart [] (s\<lparr>start := clock s\<rparr>))"
| "exec_stmt t NowStop s = Some (emit t NowStop [] (s\<lparr>stop := clock s\<rparr>))"
| "exec_stmt t (Async u) s = Some (emit t (Async u) [] (s\<lparr>launched := (launched s)(u := True)\<rparr>))"
| "exec_stmt t (Get u) s =
     (if launched s u \<and> code s u = [] then Some (emit t (Get u) [] s) else None)"
| "exec_stmt t (Return r) s = Some (emit t (Return r) [] (s\<lparr>exit_code := Some r\<rparr>))"

definition step :: "tid \<Rightarrow> state \<Rightarrow> state option" where
  "step t s =
     (if \<not> launched s t \<or> exit_code s \<noteq> None then None
      else case code s t of [] \<Rightarrow> None | c # _ \<Rightarrow> exec_stmt t c s)"

subsection \<open>Runs\<close>

datatype sched = Run tid | Delay nat

definition tick :: "nat \<Rightarrow> state \<Rightarrow> state" where
  "tick n s = s\<lparr>clock := clock s + n\<rparr>"

definition move :: "sched \<Rightarrow> state \<Rightarrow> state" where
  "move x s = (case x of Run t \<Rightarrow> (case step t s of None \<Rightarrow> s | Some s' \<Rightarrow> s')
                       | Delay n \<Rightarrow> tick n s)"

fun exec :: "sched list \<Rightarrow> state \<Rightarrow> state" where
  "exec [] s = s"
| "exec (x # xs) s = exec xs (move x s)"

definition boot :: "(tid \<Rightarrow> stmt list) \<Rightarrow> state" where
  "boot P = \<lparr>clock = 0, code = P, launched = (\<lambda>t. t = 0), wake = (\<lambda>t. None), mutex = None,
             start = 0, stop = 0, exit_code = None, trace = []\<rparr>"

definition reach :: "(tid \<Rightarrow> stmt list) \<Rightarrow> state \<Rightarrow> bool" where
  "reach P s = (\<exists>sch. s = exec sch (boot P))"

definition console :: "state \<Rightarrow> string" where
  "console s = concat (map ev_out (trace s))"

definition executed :: "state \<Rightarrow> stmt list" where
  "executed s = map ev_stmt (trace s)"

definition thread_events :: "tid \<Rightarrow> state \<Rightarrow> event list" where
  "thread_events t s = filter (\<lambda>e. ev_tid e = t) (trace s)"

definition history :: "tid \<Rightarrow> state \<Rightarrow> stmt list" where
  "history t s = map ev_stmt (thread_events t s)"

text \<open>\<open>precedes P Q xs\<close>: no element with \<open>Q\<close> stands in \<open>xs\<close> before the first
  element with \<open>P\<close>; so wherever a \<open>Q\<close> occurs, a \<open>P\<close> has occurred earlier.\<close>

definition precedes :: "('a \<Rightarrow> bool) \<Rightarrow> ('a \<Rightarrow> bool) \<Rightarrow> 'a list \<Rightarrow> bool" where
  "precedes P Q xs = (filter Q (takeWhile (\<lambda>x. \<not> P x) xs) = [])"

section \<open>The programs\<close>

subsection \<open>\<^verbatim>\<open>01_sync.h\<close>: \<^verbatim>\<open>Program_01_async\<close>\<close>

definition CreateCoffee_01 :: "stmt list" where
  "CreateCoffee_01 =
     [Cout ''Creating coffee...'', Cout endl,
      SleepFor 2000,
      Cout ''Created coffee!'', Cout endl]"

definition CreateToast_01 :: "stmt list" where
  "CreateToast_01 =
     [Cout ''Creating toast...'', Cout endl,
      SleepFor 3000,
      Cout ''Created toast!'', Cout endl]"

definition report :: "stmt list" where
  "report = [Cout ''Total time = '', CoutCount, Cout '' seconds'', Cout endl]"

definition Run_01 :: "stmt list" where
  "Run_01 = [NowStart] @ CreateCoffee_01 @ CreateToast_01 @ [NowStop] @ report"

text \<open>
  Modelled from the spec: the Scheduler's Sequential mode for an arbitrary sequence of work
  units, each a name and a duration in milliseconds. The source has no such function, only
  the fixed workload above: \<open>execute\<close> follows \<^verbatim>\<open>CreateCoffee\<close> and \<^verbatim>\<open>CreateToast\<close> with
  the name and the duration as parameters, and \<open>run_sequential\<close> follows \<^verbatim>\<open>Run\<close>.
\<close>

definition execute :: "string \<times> nat \<Rightarrow> stmt list" where
  "execute unit =
     [Cout (''Creating '' @ fst unit @ ''...''), Cout endl,
      SleepFor (snd unit),
      Cout (''Created '' @ fst unit @ ''!''), Cout endl]"

definition run_sequential :: "(string \<times> nat) list \<Rightarrow> stmt list" where
  "run_sequential units = [NowStart] @ concat (map execute units) @ [NowStop] @ report"

definition sequential_threads :: "(string \<times> nat) list \<Rightarrow> tid \<Rightarrow> stmt list" where
  "sequential_threads units t = (if t = 0 then run_sequential units @ [Return 0] else [])"

subsection \<open>\<^verbatim>\<open>02_async/main.cpp\<close>: \<^verbatim>\<open>Program\<close>\<close>

text \<open>The lambdas given to \<^verbatim>\<open>std::async\<close> are the code of threads 1 (coffee) and 2 (toast).
  \<^verbatim>\<open>std::async\<close> is called without a launch policy; it is modelled as starting a new thread,
  which is what the mainstream implementations do.\<close>

definition coffee :: tid where "coffee = 1"
definition toast :: tid where "toast = 2"

definition CreateCoffee_02 :: "stmt list" where
  "CreateCoffee_02 =
     [Cout ''Creating coffee...'', Cout endl,
      SleepFor 2000,
      Cout ''Created coffee!'', Cout endl]"

definition CreateToast_02 :: "stmt list" where
  "CreateToast_02 =
     [Cout ''Creating toast...'', Cout endl,
      SleepFor 3000,
      Cout ''Created toast!'', Cout endl]"

definition Run_02 :: "stmt list" where
  "Run_02 = [NowStart, Async coffee, Async toast, Get coffee, Get toast, NowStop] @ report"

subsection \<open>\<^verbatim>\<open>03_async_cout_mutex.h\<close>: \<^verbatim>\<open>Program_03_async_cout_mutex\<close>\<close>

definition CreateCoffee_03 :: "stmt list" where
  "CreateCoffee_03 =
     [LockGuard, Cout ''Creating coffee...'', Cout endl, Release,
      SleepFor 2000,
      Cout ''Created coffee!'', Cout endl]"

definition CreateToast_03 :: "stmt list" where
  "CreateToast_03 =
     [LockGuard, Cout ''Creating toast...'', Cout endl, Release,
      SleepFor 3000,
      Cout ''Created toast!'', Cout endl]"

definition Run_03 :: "stmt list" where
  "Run_03 = [NowStart, Async coffee, Async toast, Get coffee, Get toast, NowStop] @ report"

subsection \<open>\<^verbatim>\<open>concurrency/main.cpp\<close>\<close>

text \<open>\<^verbatim>\<open>programId\<close> is a local variable of \<^verbatim>\<open>main\<close>, initialised to 3; the model takes it
  as a parameter. \<^verbatim>\<open>02_async.h\<close> with \<^verbatim>\<open>Program_02_async\<close> is not among the sources:

  Modelled from the spec: \<^verbatim>\<open>Program_02_async::Run\<close> (ConcurrentUnsynchronized mode) launches
  every unit on its own execution context without the output guard and waits for all of them
  before it reports; it is taken to be \<^verbatim>\<open>Program::Run\<close> of \<^verbatim>\<open>02_async/main.cpp\<close>.\<close>

definition switch_body :: "int \<Rightarrow> stmt list" where
  "switch_body programId =
     (if programId = 1 then Run_01
      else if programId = 2 then Run_02
      else if programId = 3 then Run_03
      else [])"

definition main_body :: "int \<Rightarrow> stmt list" where
  "main_body programId =
     [Cout (format_banner programId), Cout endl] @ switch_body programId @ [Return 0]"

definition threads :: "int \<Rightarrow> tid \<Rightarrow> stmt list" where
  "threads programId t =
     (if t = 0 then main_body programId
      else if programId = 2 then
        (if t = coffee then CreateCoffee_02 else if t = toast then CreateToast_02 else [])
      else if programId = 3 then
        (if t = coffee then CreateCoffee_03 else if t = toast then CreateToast_03 else [])
      else [])"

definition programId_default :: int where
  "programId_default = 3"

definition main :: "sched list \<Rightarrow> state" where
  "main sch = exec sch (boot (threads programId_default))"

definition main_with :: "int \<Rightarrow> sched list \<Rightarrow> state" where
  "main_with programId sch = exec sch (boot (threads programId))"

subsection \<open>\<^verbatim>\<open>multithreading/02_async/main.cpp\<close>\<close>

definition threads_02_async :: "tid \<Rightarrow> stmt list" where
  "threads_02_async t =
     (if t = 0 then Run_02 @ [Return 0]
      else if t = coffee then CreateCoffee_02
      else if t = toast then CreateToast_02
      else [])"

definition main_02_async :: "sched list \<Rightarrow> state" where
  "main_02_async sch = exec sch (boot threads_02_async)"


section \<open>Schedules without delay\<close>

text \<open>The schedules in which every statement runs as soon as it can and time passes only
  while the threads sleep: for the sequential program, and for the asynchronous ones.\<close>

definition ideal_01 :: "sched list" where
  "ideal_01 =
     [Run 0, Run 0, Run 0,
      Run 0, Run 0, Run 0, Delay 2000, Run 0, Run 0, Run 0,
      Run 0, Run 0, Run 0, Delay 3000, Run 0, Run 0, Run 0,
      Run 0, Run 0, Run 0, Run 0, Run 0, Run 0]"

definition ideal_02 :: "sched list" where
  "ideal_02 =
     [Run 0, Run 0, Run 0, Run 0, Run 0,
      Run coffee, Run coffee, Run coffee,
      Run toast, Run toast, Run toast,
      Delay 2000, Run coffee, Run coffee, Run coffee, Run 0,
      Delay 1000, Run toast, Run toast, Run toast,
      Run 0, Run 0, Run 0, Run 0, Run 0, Run 0, Run 0]"

definition ideal_03 :: "sched list" where
  "ideal_03 =
     [Run 0, Run 0, Run 0, Run 0, Run 0,
      Run coffee, Run coffee, Run coffee, Run coffee, Run coffee,
      Run toast, Run toast, Run toast, Run toast, Run toast,
      Delay 2000, Run coffee, Run coffee, Run coffee, Run 0,
      Delay 1000, Run toast, Run toast, Run toast,
      Run 0, Run 0, Run 0, Run 0, Run 0, Run 0, Run 0]"

text \<open>For \<^verbatim>\<open>02_async/main.cpp\<close>, whose \<^verbatim>\<open>main\<close> writes no banner.\<close>

definition ideal_02_async :: "sched list" where
  "ideal_02_async = drop 2 ideal_02"

section \<open>Invariants\<close>

text \<open>The first two statements executed in a run of \<^verbatim>\<open>main\<close> are the two insertions of the
  banner line, and no other thread exists before them.\<close>

definition banner_inv :: "int \<Rightarrow> state \<Rightarrow> bool" where
  "banner_inv programId s =
    ((trace s = [] \<and> (\<exists>r. code s 0 = Cout (format_banner programId) # Cout endl # r)
        \<and> (\<forall>u. launched s u \<longrightarrow> u = 0)) \<or>
     ((\<exists>e. trace s = [e] \<and> ev_stmt e = Cout (format_banner programId) \<and> ev_out e = format_banner programId)
        \<and> (\<exists>r. code s 0 = Cout endl # r) \<and> (\<forall>u. launched s u \<longrightarrow> u = 0)) \<or>
     (\<exists>e1 e2 rest. trace s = e1 # e2 # rest
        \<and> ev_stmt e1 = Cout (format_banner programId) \<and> ev_out e1 = format_banner programId
        \<and> ev_stmt e2 = Cout endl \<and> ev_out e2 = endl))"


text \<open>\<open>held_after h cs\<close>: whether a thread that runs the statements \<open>cs\<close> is inside a
  \<^verbatim>\<open>lock_guard\<close> block afterwards (\<open>h\<close>: whether it was before). \<open>scoped h cs\<close>: the
  \<^verbatim>\<open>lock_guard\<close> blocks of \<open>cs\<close> are not nested and hold insertions into \<^verbatim>\<open>std::cout\<close> only.\<close>

fun held_after :: "bool \<Rightarrow> stmt list \<Rightarrow> bool" where
  "held_after h [] = h"
| "held_after h (LockGuard # cs) = held_after True cs"
| "held_after h (Release # cs) = held_after False cs"
| "held_after h (c # cs) = held_after h cs"

fun scoped :: "bool \<Rightarrow> stmt list \<Rightarrow> bool" where
  "scoped h [] = True"
| "scoped h (LockGuard # cs) = (\<not> h \<and> scoped True cs)"
| "scoped h (Release # cs) = (h \<and> scoped False cs)"
| "scoped h (Cout x # cs) = scoped h cs"
| "scoped h (c # cs) = (\<not> h \<and> scoped h cs)"

text \<open>A thread is inside its critical section when the statements it has executed leave it
  in a \<^verbatim>\<open>lock_guard\<close> block.\<close>

definition inside :: "tid \<Rightarrow> state \<Rightarrow> bool" where
  "inside t s = held_after False (history t s)"



text \<open>A run of the synchronized program in which the coffee thread has just taken the
  mutex.\<close>

definition coffee_locked :: "sched list" where
  "coffee_locked = [Run 0, Run 0, Run 0, Run 0, Run coffee]"

text \<open>\<open>nap c\<close>: how long the statement blocks at least. \<open>gaps es\<close>, for the events of one
  thread in order: each event comes no earlier than the one before it, and a completed
  \<^verbatim>\<open>sleep_for\<close> comes at least its duration later.\<close>

definition nap :: "stmt \<Rightarrow> nat" where
  "nap c = (case c of SleepFor d \<Rightarrow> d | _ \<Rightarrow> 0)"

fun gaps :: "event list \<Rightarrow> bool" where
  "gaps [] = True"
| "gaps [e] = True"
| "gaps (e # e' # es) = (ev_time e + nap (ev_stmt e') \<le> ev_time e' \<and> gaps (e' # es))"

text \<open>\<open>report_last cs\<close>: in \<open>cs\<close> the clock is not read any more once the count has been
  written. \<open>stmt_text s c\<close>: what the statement \<open>c\<close> writes to \<^verbatim>\<open>std::cout\<close>, the count
  taken from the clock variables of \<open>s\<close>.\<close>

fun report_last :: "stmt list \<Rightarrow> bool" where
  "report_last [] = True"
| "report_last (CoutCount # cs) = (NowStart \<notin> set cs \<and> NowStop \<notin> set cs \<and> report_last cs)"
| "report_last (c # cs) = report_last cs"

definition stmt_text :: "state \<Rightarrow> stmt \<Rightarrow> string" where
  "stmt_text s c = (case c of Cout x \<Rightarrow> x | CoutCount \<Rightarrow> count_text s | _ \<Rightarrow> [])"


section \<open>Scheduling overhead\<close>

text \<open>
  A schedule lets time pass with \<open>Delay\<close>. The part of a delay that the program itself asks
  for is \<open>due\<close>: nothing while some thread could take a step, and otherwise the time until
  the first sleeping thread may wake up. The rest of the delay is overhead: time in which a
  thread that could run is kept waiting, or a sleeping thread oversleeps. \<open>overhead sch s\<close>
  adds it up along the schedule.
\<close>

definition tids :: "tid list" where
  "tids = [0, coffee, toast]"

definition runnable :: "state \<Rightarrow> tid \<Rightarrow> bool" where
  "runnable s t = (step t s \<noteq> None)"

definition naps :: "state \<Rightarrow> nat list" where
  "naps s = concat (map (\<lambda>t. case wake s t of None \<Rightarrow> [] | Some w \<Rightarrow> [w - clock s]) tids)"

definition due :: "state \<Rightarrow> nat \<Rightarrow> nat" where
  "due s n = (if (\<exists>t\<in>set tids. runnable s t) \<or> naps s = [] then 0 else min n (Min (set (naps s))))"

definition cost :: "sched \<Rightarrow> state \<Rightarrow> nat" where
  "cost x s = (case x of Run t \<Rightarrow> 0 | Delay n \<Rightarrow> n - due s n)"

fun overhead :: "sched list \<Rightarrow> state \<Rightarrow> nat" where
  "overhead [] s = 0"
| "overhead (x # xs) s = cost x s + overhead xs (move x s)"

text \<open>\<open>rest_nap s t\<close>: how long thread \<open>t\<close> has still to sleep, the sleep it is in counted
  from now. \<open>longest s\<close>: the longest of these. \<open>elapsed_bound\<close>: the elapsed time that is
  still to be expected, before the clock is read, between the two readings, and after them.
  \<open>stamp c s\<close>: when the statement \<open>c\<close> was first executed. \<open>finish_bound u c\<close>: the
  same for the time from the first reading of the clock to the statement \<open>c\<close> of thread
  \<open>u\<close>.\<close>

definition rest_nap :: "state \<Rightarrow> tid \<Rightarrow> nat" where
  "rest_nap s t =
     (case wake s t of
        None \<Rightarrow> sum_list (map nap (code s t))
      | Some w \<Rightarrow> (w - clock s) + sum_list (map nap (tl (code s t))))"

definition longest :: "state \<Rightarrow> nat" where
  "longest s = max (rest_nap s 0) (max (rest_nap s coffee) (rest_nap s toast))"

definition elapsed_bound :: "state \<Rightarrow> nat" where
  "elapsed_bound s =
     (if NowStart \<in> set (code s 0) then longest s
      else if NowStop \<in> set (code s 0) then (clock s - start s) + longest s
      else stop s - start s)"

definition stamp :: "stmt \<Rightarrow> state \<Rightarrow> nat" where
  "stamp c s = (case filter (\<lambda>e. ev_stmt e = c) (trace s) of [] \<Rightarrow> 0 | e # es \<Rightarrow> ev_time e)"

definition finish_bound :: "tid \<Rightarrow> stmt \<Rightarrow> state \<Rightarrow> nat" where
  "finish_bound u c s =
     (if NowStart \<in> set (code s 0) then rest_nap s u
      else if c \<in> set (code s u) then (clock s - start s) + rest_nap s u
      else stamp c s - start s)"

text \<open>A schedule without overhead for the sequential scheduler with the single unit
  \<open>(''tea'', 1000)\<close>, and one for the synchronized program in which the coffee thread is
  kept waiting for 1500 ms after its sleep.\<close>

definition ideal_tea :: "sched list" where
  "ideal_tea =
     [Run 0, Run 0, Run 0, Run 0, Delay 1000, Run 0, Run 0, Run 0,
      Run 0, Run 0, Run 0, Run 0, Run 0, Run 0]"

definition late_coffee :: "sched list" where
  "late_coffee =
     [Run 0, Run 0, Run 0, Run 0, Run 0,
      Run coffee, Run coffee, Run coffee, Run coffee, Run coffee,
      Run toast, Run toast, Run toast, Run toast, Run toast,
      Delay 3000, Run toast, Run toast, Run toast,
      Delay 500, Run coffee, Run coffee, Run coffee,
      Run 0, Run 0, Run 0, Run 0, Run 0, Run 0, Run 0, Run 0]"

text \<open>\<open>concurrent_outcome s ov\<close>: what a finished run \<open>s\<close> of an asynchronous program with
  overhead \<open>ov\<close> looks like.\<close>

definition concurrent_outcome :: "state \<Rightarrow> nat \<Rightarrow> bool" where
  "concurrent_outcome s ov =
     (start s + 3000 \<le> stop s \<and> stop s \<le> start s + 3000 + ov \<and>
      precedes (\<lambda>c. c = Cout ''Created coffee!'') (\<lambda>c. c = Cout ''Total time = '') (executed s) \<and>
      precedes (\<lambda>c. c = Cout ''Created toast!'') (\<lambda>c. c = Cout ''Total time = '') (executed s) \<and>
      (\<exists>xs. executed s = xs @ [NowStop, Cout ''Total time = '', CoutCount, Cout '' seconds'', Cout endl, Return 0] \<and>
            console s = concat (map (stmt_text s) xs) @
              ''Total time = '' @ show_nat ((stop s - start s) div 1000) @ '' seconds'' @ endl) \<and>
      (ov < 1000 \<longrightarrow>
         stop s - start s < 4000 \<and>
         precedes (\<lambda>c. c = Cout ''Created coffee!'') (\<lambda>c. c = Cout ''Created toast!'') (executed s) \<and>
         (\<exists>body. console s = body @ ''Total time = 3 seconds'' @ endl)))"

text \<open>A run of the synchronized program in which the toast thread, its sleep over at 3000 ms,
  is not scheduled before 5000 ms, and a run of the sequential program in which \<^verbatim>\<open>main\<close> is
  kept waiting for 999 ms before it reads the clock again.\<close>

definition late_toast :: "sched list" where
  "late_toast =
     [Run 0, Run 0, Run 0, Run 0, Run 0,
      Run coffee, Run coffee, Run coffee, Run coffee, Run coffee,
      Run toast, Run toast, Run toast, Run toast, Run toast,
      Delay 2000, Run coffee, Run coffee, Run coffee, Run 0,
      Delay 3000, Run toast, Run toast, Run toast,
      Run 0, Run 0, Run 0, Run 0, Run 0, Run 0, Run 0]"

definition slow_01 :: "sched list" where
  "slow_01 =
     [Run 0, Run 0, Run 0,
      Run 0, Run 0, Run 0, Delay 2000, Run 0, Run 0, Run 0,
      Run 0, Run 0, Run 0, Delay 3000, Run 0, Run 0, Run 0,
      Delay 999, Run 0, Run 0, Run 0, Run 0, Run 0, Run 0]"

section \<open>When a thread cannot be created\<close>

text \<open>
  Both asynchronous programs call \<^verbatim>\<open>std::async\<close> without a launch policy, that is with
  \<^verbatim>\<open>std::launch::async | std::launch::deferred\<close>, and neither has a \<^verbatim>\<open>try\<close> block. With this
  policy a call that cannot start a thread does not throw: it returns a deferred future, and
  the function runs in the thread that calls \<^verbatim>\<open>get\<close>, during that call. \<open>deferred fails P\<close> is
  the program \<open>P\<close> when the threads that \<open>fails\<close> names cannot be created: the call of
  \<^verbatim>\<open>std::async\<close> for such a thread launches nothing, the call of \<^verbatim>\<open>get\<close> on its future runs
  the statements of the unit in \<^verbatim>\<open>main\<close>, and the thread itself has no statements.
\<close>

fun defer_stmt :: "(tid \<Rightarrow> bool) \<Rightarrow> (tid \<Rightarrow> stmt list) \<Rightarrow> stmt \<Rightarrow> stmt list" where
  "defer_stmt fails P (Async t) = (if fails t then [] else [Async t])"
| "defer_stmt fails P (Get t) = (if fails t then P t else [Get t])"
| "defer_stmt fails P c = [c]"

definition deferred :: "(tid \<Rightarrow> bool) \<Rightarrow> (tid \<Rightarrow> stmt list) \<Rightarrow> tid \<Rightarrow> stmt list" where
  "deferred fails P t =
     (if t = 0 then concat (map (defer_stmt fails P) (P 0)) else if fails t then [] else P t)"

text \<open>A schedule that lets every thread run as far as it can, waits 2000 ms, lets every thread
  run again, and waits 3000 ms more.\<close>

definition patient :: "sched list" where
  "patient =
     [Run 0, Run 0, Run 0, Run 0, Run 0, Run 0, Run 0, Run 0, Run 0, Run 0,
      Run coffee, Run coffee, Run coffee, Run coffee, Run coffee,
      Run toast, Run toast, Run toast, Run toast, Run toast,
      Delay 2000,
      Run coffee, Run coffee, Run coffee,
      Run 0, Run 0, Run 0, Run 0, Run 0, Run 0, Run 0, Run 0, Run 0, Run 0,
      Delay 3000,
      Run toast, Run toast, Run toast,
      Run 0, Run 0, Run 0, Run 0, Run 0, Run 0, Run 0, Run 0, Run 0, Run 0, Run 0, Run 0]"

section \<open>When a unit exits by an exception\<close>

text \<open>
  The mutex is locked by a \<^verbatim>\<open>std::lock_guard\<close>, an automatic object of the block
  \<^verbatim>\<open>{ std::lock_guard<std::mutex> lock(coutMutex); std::cout << ... << std::endl; }\<close>;
  \<open>Release\<close> is the end of that block, where the destructor of the guard unlocks the
  mutex. When a statement of a unit's function exits by an exception, the statements after
  it are not executed, but the stack is unwound: the destructors of the automatic objects
  that are alive run, here the guard's when the thread is inside the block. The exception
  is stored in the future of the unit; \<^verbatim>\<open>get\<close> throws it again, and \<^verbatim>\<open>main\<close>, which has no
  \<^verbatim>\<open>try\<close> block, executes nothing after that call.

  \<open>pending cs\<close>: the destructors that run when a thread with the statements \<open>cs\<close> before it
  exits by an exception, that is the \<open>Release\<close> of the block it is in. \<open>thrown t k P\<close>: the
  program \<open>P\<close> when the statement at position \<open>k\<close> of thread \<open>t\<close> exits by an exception: the
  thread executes the \<open>k\<close> statements before it and then the pending destructors.
\<close>

definition pending :: "stmt list \<Rightarrow> stmt list" where
  "pending cs = filter (\<lambda>c. c = Release) (takeWhile (\<lambda>c. c \<noteq> LockGuard) cs)"

definition thrown :: "tid \<Rightarrow> nat \<Rightarrow> (tid \<Rightarrow> stmt list) \<Rightarrow> tid \<Rightarrow> stmt list" where
  "thrown t k P u =
     (if k < length (P t) then
        (if u = t then take k (P t) @ pending (drop k (P t))
         else if u = 0 then takeWhile (\<lambda>c. c \<noteq> Get t) (P 0) @ [Get t]
         else P u)
      else P u)"

text \<open>A run in which the coffee thread takes the mutex, writes its start message and exits by
  an exception at \<^verbatim>\<open>std::endl\<close>, and the toast thread, which could not take the mutex before,
  takes it afterwards.\<close>

definition coffee_unwinds :: "sched list" where
  "coffee_unwinds =
     [Run 0, Run 0, Run 0, Run 0, Run 0,
      Run coffee, Run coffee, Run toast, Run coffee, Run toast, Run toast]"

section \<open>Runs and their invariants\<close>

lemma exec_append: "exec (xs @ ys) s = exec ys (exec xs s)"
  by (induction xs arbitrary: s) simp_all

lemma exec_invariant:
  assumes "I s"
    and "\<And>s t s'. I s \<Longrightarrow> step t s = Some s' \<Longrightarrow> I s'"
    and "\<And>s n. I s \<Longrightarrow> I (tick n s)"
  shows "I (exec sch s)"
  using assms(1)
proof (induction sch arbitrary: s)
  case Nil
  then show ?case by simp
next
  case (Cons x xs)
  have "I (move x s)"
    using Cons.prems assms(2,3) by (auto simp: move_def split: sched.splits option.splits)
  then show ?case using Cons.IH by simp
qed

lemma step_shape:
  assumes "step t s = Some s'"
  shows "launched s t \<and> exit_code s = None \<and> clock s' = clock s \<and> (\<exists>c rest. code s t = c # rest \<and>
     exec_stmt t c s = Some s' \<and>
     ((\<exists>d. c = SleepFor d \<and> wake s t = None \<and> s' = s\<lparr>wake := (wake s)(t \<mapsto> clock s + d)\<rparr>) \<or>
      (\<exists>x. trace s' = trace s @ [\<lparr>ev_time = clock s, ev_tid = t, ev_stmt = c, ev_out = x\<rparr>]
          \<and> code s' = (code s)(t := rest)
          \<and> (\<forall>d. c = SleepFor d \<longrightarrow> (\<exists>w. wake s t = Some w \<and> w \<le> clock s)))))"
proof -
  from assms have l: "launched s t" "exit_code s = None"
    by (auto simp: step_def split: if_splits)
  from assms l obtain c rest where c: "code s t = c # rest" "exec_stmt t c s = Some s'"
    by (auto simp: step_def split: list.splits)
  show ?thesis using l c
    by (cases c) (auto simp: emit_def split: option.splits if_splits)
qed

lemma history_step:
  assumes "step u s = Some s'"
  shows "history t s' @ code s' t = history t s @ code s t"
  using step_shape [OF assms]
  by (auto simp: history_def thread_events_def)

lemma history_tick: "history t (tick n s) @ code (tick n s) t = history t s @ code s t"
  by (simp add: history_def thread_events_def tick_def)

text \<open>Program order: what a thread has executed, followed by what it has still to execute,
  is its program.\<close>

lemma program_order: "history t (exec sch (boot P)) @ code (exec sch (boot P)) t = P t"
proof -
  have "history t (exec sch (boot P)) @ code (exec sch (boot P)) t
        = history t (boot P) @ code (boot P) t"
    by (rule exec_invariant [where I = "\<lambda>s. history t s @ code s t = history t (boot P) @ code (boot P) t"])
       (simp_all add: history_step history_tick)
  then show ?thesis by (simp add: history_def thread_events_def boot_def)
qed

lemma reach_boot: "reach P (boot P)"
  unfolding reach_def by (rule exI [of _ "[]"]) simp

lemma reach_exec: "reach P (exec sch (boot P))"
  unfolding reach_def by blast

lemma reach_step: "reach P s \<Longrightarrow> step t s = Some s' \<Longrightarrow> reach P s'"
  unfolding reach_def
proof (elim exE)
  fix sch assume "step t s = Some s'" "s = exec sch (boot P)"
  then have "s' = exec (sch @ [Run t]) (boot P)"
    by (simp add: exec_append move_def)
  then show "\<exists>sch. s' = exec sch (boot P)" ..
qed

lemma reach_tick: "reach P s \<Longrightarrow> reach P (tick n s)"
  unfolding reach_def
proof (elim exE)
  fix sch assume "s = exec sch (boot P)"
  then have "tick n s = exec (sch @ [Delay n]) (boot P)"
    by (simp add: exec_append move_def)
  then show "\<exists>sch. tick n s = exec sch (boot P)" ..
qed

lemma reach_induct [consumes 1, case_names boot step tick]:
  assumes "reach P s"
    and "I (boot P)"
    and "\<And>s t s'. reach P s \<Longrightarrow> I s \<Longrightarrow> step t s = Some s' \<Longrightarrow> I s'"
    and "\<And>s n. reach P s \<Longrightarrow> I s \<Longrightarrow> I (tick n s)"
  shows "I s"
proof -
  from assms(1) obtain sch where s: "s = exec sch (boot P)"
    unfolding reach_def by blast
  have "reach P (exec sch (boot P)) \<and> I (exec sch (boot P))"
    by (rule exec_invariant [where I = "\<lambda>s. reach P s \<and> I s"])
       (auto intro: reach_boot reach_step reach_tick assms(2,3,4))
  then show ?thesis using s by simp
qed

lemma reach_program_order: "reach P s \<Longrightarrow> history t s @ code s t = P t"
  unfolding reach_def by (auto simp: program_order)

lemma tick_simps [simp]:
  "clock (tick n s) = clock s + n" "code (tick n s) = code s" "launched (tick n s) = launched s"
  "wake (tick n s) = wake s" "mutex (tick n s) = mutex s" "start (tick n s) = start s"
  "stop (tick n s) = stop s" "exit_code (tick n s) = exit_code s" "trace (tick n s) = trace s"
  by (simp_all add: tick_def)

lemma boot_simps [simp]:
  "clock (boot P) = 0" "code (boot P) = P" "launched (boot P) t = (t = 0)"
  "wake (boot P) t = None" "mutex (boot P) = None" "start (boot P) = 0"
  "stop (boot P) = 0" "exit_code (boot P) = None" "trace (boot P) = []"
  by (simp_all add: boot_def)

text \<open>What one step does to the fields other than the code and the trace.\<close>

lemma step_fields:
  assumes "step t s = Some s'" and "code s t = c # rest"
  shows "launched s' = (case c of Async u \<Rightarrow> (launched s)(u := True) | _ \<Rightarrow> launched s)"
    and "mutex s' = (case c of LockGuard \<Rightarrow> Some t | Release \<Rightarrow> None | _ \<Rightarrow> mutex s)"
    and "start s' = (case c of NowStart \<Rightarrow> clock s | _ \<Rightarrow> start s)"
    and "stop s' = (case c of NowStop \<Rightarrow> clock s | _ \<Rightarrow> stop s)"
    and "exit_code s' = (case c of Return r \<Rightarrow> Some r | _ \<Rightarrow> None)"
    and "c = LockGuard \<Longrightarrow> mutex s = None"
    and "c = Get u \<Longrightarrow> launched s u \<and> code s u = []"
  using assms
  by (cases c; auto simp: step_def emit_def split: if_splits option.splits)+

lemma launched_inv:
  assumes "reach P s"
  shows "launched s u \<longrightarrow> u = 0 \<or> Async u \<in> set (executed s)"
  using assms
proof (induction rule: reach_induct)
  case boot
  then show ?case by simp
next
  case (step s t s')
  from step_shape [OF step.hyps(2)] obtain c rest where c: "code s t = c # rest" by blast
  show ?case
    using step_shape [OF step.hyps(2)] step_fields(1) [OF step.hyps(2) c] step.IH c
    by (cases c) (auto simp: executed_def)
next
  case (tick s n)
  then show ?case by (simp add: executed_def)
qed

lemma events_launched:
  assumes "reach P s"
  shows "\<forall>e\<in>set (trace s). launched s (ev_tid e)"
  using assms
proof (induction rule: reach_induct)
  case boot
  then show ?case by simp
next
  case (step s t s')
  from step_shape [OF step.hyps(2)] obtain c rest where c: "code s t = c # rest" by blast
  show ?case
    using step_shape [OF step.hyps(2)] step_fields(1) [OF step.hyps(2) c] step.IH c
    by (cases c) auto
next
  case (tick s n)
  then show ?case by simp
qed

lemma exit_inv:
  assumes "reach P s"
  shows "exit_code s = None \<or> (\<exists>r. exit_code s = Some r \<and> Return r \<in> set (executed s))"
  using assms
proof (induction rule: reach_induct)
  case boot
  then show ?case by simp
next
  case (step s t s')
  from step_shape [OF step.hyps(2)] obtain c rest where c: "code s t = c # rest" by blast
  show ?case
    using step_shape [OF step.hyps(2)] step_fields(5) [OF step.hyps(2) c] step.IH c
    by (cases c) (auto simp: executed_def)
next
  case (tick s n)
  then show ?case by (simp add: executed_def)
qed

lemma event_in_program:
  assumes "reach P s" and "e \<in> set (trace s)"
  shows "ev_stmt e \<in> set (P (ev_tid e))"
proof -
  have "ev_stmt e \<in> set (history (ev_tid e) s)"
    using assms(2) by (auto simp: history_def thread_events_def)
  then show ?thesis
    using reach_program_order [OF assms(1), of "ev_tid e"]
    by (metis Un_iff set_append)
qed

section \<open>Facts about the programs\<close>

lemmas program_defs = threads_def threads_02_async_def main_body_def switch_body_def
  Run_01_def Run_02_def Run_03_def CreateCoffee_01_def CreateToast_01_def CreateCoffee_02_def
  CreateToast_02_def CreateCoffee_03_def CreateToast_03_def report_def coffee_def toast_def

lemmas run_defs = main_with_def main_02_async_def boot_def program_defs move_def step_def emit_def tick_def

lemma reach_main_with: "reach (threads programId) (main_with programId sch)"
  unfolding main_with_def by (rule reach_exec)

lemma reach_main_02_async: "reach threads_02_async (main_02_async sch)"
  unfolding main_02_async_def by (rule reach_exec)

lemma exit_code_from_program:
  assumes "reach P s" and "exit_code s = Some r"
  shows "\<exists>t. Return r \<in> set (P t)"
proof -
  from exit_inv [OF assms(1)] assms(2) have "Return r \<in> set (executed s)" by auto
  then obtain e where "e \<in> set (trace s)" "ev_stmt e = Return r"
    by (auto simp: executed_def)
  with event_in_program [OF assms(1)] show ?thesis by metis
qed

lemma return_threads: "Return r \<in> set (threads programId t) \<Longrightarrow> r = 0"
  by (auto simp: program_defs split: if_splits)

lemma return_threads_02_async: "Return r \<in> set (threads_02_async t) \<Longrightarrow> r = 0"
  by (auto simp: program_defs split: if_splits)

lemma exits_with_zero:
  "exit_code (main_with programId sch) = None \<or> exit_code (main_with programId sch) = Some 0"
  using exit_code_from_program [OF reach_main_with] return_threads
  by (cases "exit_code (main_with programId sch)") blast+

lemma exits_with_zero_02_async:
  "exit_code (main_02_async sch) = None \<or> exit_code (main_02_async sch) = Some 0"
  using exit_code_from_program [OF reach_main_02_async] return_threads_02_async
  by (cases "exit_code (main_02_async sch)") blast+

lemma can_exit: "\<exists>sch. exit_code (main_with programId sch) = Some 0"
proof -
  consider "programId = 1" | "programId = 2" | "programId = 3"
    | "programId \<noteq> 1" "programId \<noteq> 2" "programId \<noteq> 3" by blast
  then show ?thesis
  proof cases
    case 1
    have "exit_code (main_with 1 ideal_01) = Some 0"
      by (simp add: run_defs ideal_01_def)
    with 1 show ?thesis by blast
  next
    case 2
    have "exit_code (main_with 2 ideal_02) = Some 0"
      by (simp add: run_defs ideal_02_def)
    with 2 show ?thesis by blast
  next
    case 3
    have "exit_code (main_with 3 ideal_03) = Some 0"
      by (simp add: run_defs ideal_03_def)
    with 3 show ?thesis by blast
  next
    case 4
    then have "exit_code (main_with programId [Run 0, Run 0, Run 0]) = Some 0"
      by (simp add: run_defs)
    then show ?thesis by blast
  qed
qed

lemma can_exit_02_async: "exit_code (main_02_async ideal_02_async) = Some 0"
  by (simp add: run_defs ideal_02_def ideal_02_async_def)

lemma not_launched:
  assumes "reach P s" and "\<And>t. Async u \<notin> set (P t)" and "u \<noteq> 0"
  shows "\<not> launched s u"
proof
  assume "launched s u"
  with launched_inv [OF assms(1), of u] assms(3) have "Async u \<in> set (executed s)" by simp
  then obtain e where "e \<in> set (trace s)" "ev_stmt e = Async u"
    by (auto simp: executed_def)
  with event_in_program [OF assms(1)] assms(2) show False by metis
qed

lemma single_thread:
  assumes "reach P s" and "\<And>t u. Async u \<notin> set (P t)"
  shows "executed s = history 0 s"
proof -
  have "ev_tid e = 0" if "e \<in> set (trace s)" for e
    using events_launched [OF assms(1)] that not_launched [OF assms(1), of "ev_tid e"] assms(2)
    by blast
  then have "filter (\<lambda>e. ev_tid e = 0) (trace s) = trace s"
    by (simp add: filter_id_conv)
  then show ?thesis
    by (simp add: executed_def history_def thread_events_def)
qed

lemma cout_out:
  assumes "reach P s"
  shows "\<forall>e\<in>set (trace s). \<forall>x. ev_stmt e = Cout x \<longrightarrow> ev_out e = x"
  using assms
proof (induction rule: reach_induct)
  case boot
  then show ?case by simp
next
  case (step s t s')
  from step_shape [OF step.hyps(2)] obtain c rest where c: "code s t = c # rest" by blast
  show ?case
    using step.hyps(2) step.IH c
    by (cases c) (auto simp: step_def emit_def split: if_splits option.splits)
next
  case (tick s n)
  then show ?case by simp
qed

lemma silent_out:
  assumes "reach P s"
  shows "\<forall>e\<in>set (trace s). (\<forall>x. ev_stmt e \<noteq> Cout x) \<and> ev_stmt e \<noteq> CoutCount \<longrightarrow> ev_out e = []"
  using assms
proof (induction rule: reach_induct)
  case boot
  then show ?case by simp
next
  case (step s t s')
  from step_shape [OF step.hyps(2)] obtain c rest where c: "code s t = c # rest" by blast
  show ?case
    using step.hyps(2) step.IH c
    by (cases c) (auto simp: step_def emit_def split: if_splits option.splits)
next
  case (tick s n)
  then show ?case by simp
qed

lemma trace_grows: "\<exists>ext. trace (exec sch s) = trace s @ ext"
proof (rule exec_invariant [where I = "\<lambda>s'. \<exists>ext. trace s' = trace s @ ext"])
  show "\<exists>ext. trace s = trace s @ ext" by simp
next
  fix s1 s2 :: state and t assume "\<exists>ext. trace s1 = trace s @ ext" "step t s1 = Some s2"
  then show "\<exists>ext. trace s2 = trace s @ ext"
    using step_shape [of t s1 s2] by auto
next
  fix s1 :: state and n assume "\<exists>ext. trace s1 = trace s @ ext"
  then show "\<exists>ext. trace (tick n s1) = trace s @ ext" by simp
qed

lemma main_body_unrecognized:
  "programId \<noteq> 1 \<Longrightarrow> programId \<noteq> 2 \<Longrightarrow> programId \<noteq> 3 \<Longrightarrow>
   main_body programId = [Cout (format_banner programId), Cout endl, Return 0]"
  by (simp add: main_body_def switch_body_def)

lemma no_async_unrecognized:
  "programId \<noteq> 1 \<Longrightarrow> programId \<noteq> 2 \<Longrightarrow> programId \<noteq> 3 \<Longrightarrow> Async u \<notin> set (threads programId t)"
  by (simp add: threads_def main_body_def switch_body_def)

lemma no_async_sequential: "Async u \<notin> set (threads 1 t)"
  by (simp add: program_defs)

lemma clock_unread:
  assumes "reach P s" and "\<And>t. NowStart \<notin> set (P t)" and  "\<And>t. NowStop \<notin> set (P t)"
  shows "start s = 0 \<and> stop s = 0"
  using assms(1)
proof (induction rule: reach_induct)
  case boot
  then show ?case by simp
next
  case (step s t s')
  from step_shape [OF step.hyps(2)] obtain c rest where c: "code s t = c # rest" by blast
  with reach_program_order [OF step.hyps(1), of t] have "c \<in> set (P t)"
    by (metis in_set_conv_decomp)
  with assms(2,3) have "c \<noteq> NowStart" "c \<noteq> NowStop" by auto
  then show ?case
    using step_fields(3,4) [OF step.hyps(2) c] step.IH by (cases c) auto
next
  case (tick s n)
  then show ?case by simp
qed

lemma unrecognized_run:
  assumes "programId \<noteq> 1" "programId \<noteq> 2" "programId \<noteq> 3"
  shows "executed (main_with programId sch) @ code (main_with programId sch) 0
           = [Cout (format_banner programId), Cout endl, Return 0]"
    and "u \<noteq> 0 \<Longrightarrow> \<not> launched (main_with programId sch) u"
    and "start (main_with programId sch) = 0" and "stop (main_with programId sch) = 0"
    and "console (main_with programId sch) = [] \<or>
         console (main_with programId sch) = format_banner programId \<or>
         console (main_with programId sch) = format_banner programId @ endl"
proof -
  let ?s = "main_with programId sch"
  note r = reach_main_with [of programId sch]
  have na: "Async u \<notin> set (threads programId t)" for t u
    using assms by (rule no_async_unrecognized)
  have "executed ?s = history 0 ?s"
    using r na by (rule single_thread)
  then show x: "executed ?s @ code ?s 0 = [Cout (format_banner programId), Cout endl, Return 0]"
    using reach_program_order [OF r, of 0] main_body_unrecognized [OF assms]
    by (simp add: threads_def)
  show "u \<noteq> 0 \<Longrightarrow> \<not> launched ?s u"
    using not_launched [OF r na] by blast
  have "start ?s = 0 \<and> stop ?s = 0"
    using assms by (intro clock_unread [OF r]) (simp_all add: threads_def main_body_def switch_body_def)
  then show "start ?s = 0" "stop ?s = 0" by simp_all
  from x have "executed ?s \<in> {[], [Cout (format_banner programId)],
      [Cout (format_banner programId), Cout endl],
      [Cout (format_banner programId), Cout endl, Return 0]}"
    by (auto simp: append_eq_Cons_conv)
  then show "console ?s = [] \<or> console ?s = format_banner programId \<or>
         console ?s = format_banner programId @ endl"
    using cout_out [OF r] silent_out [OF r]
    by (auto simp: executed_def console_def map_eq_Cons_conv)
qed

lemma banner_inv_step:
  assumes "banner_inv programId s" and "step t s = Some s'"
  shows "banner_inv programId s'"
proof -
  from step_shape [OF assms(2)] obtain c rest where c: "code s t = c # rest" and l: "launched s t"
    and x: "exec_stmt t c s = Some s'"
    by blast
  from assms(1) consider
      (a) "trace s = []" "\<exists>r. code s 0 = Cout (format_banner programId) # Cout endl # r"
          "\<forall>u. launched s u \<longrightarrow> u = 0"
    | (b) "\<exists>e. trace s = [e] \<and> ev_stmt e = Cout (format_banner programId) \<and> ev_out e = format_banner programId"
          "\<exists>r. code s 0 = Cout endl # r" "\<forall>u. launched s u \<longrightarrow> u = 0"
    | (c) "\<exists>e1 e2 rest. trace s = e1 # e2 # rest
        \<and> ev_stmt e1 = Cout (format_banner programId) \<and> ev_out e1 = format_banner programId
        \<and> ev_stmt e2 = Cout endl \<and> ev_out e2 = endl"
    unfolding banner_inv_def by blast
  then show ?thesis
  proof cases
    case a
    with l have "t = 0" by simp
    with a c x show ?thesis
      by (auto simp: banner_inv_def emit_def)
  next
    case b
    with l have "t = 0" by simp
    with b c x show ?thesis
      by (auto simp: banner_inv_def emit_def)
  next
    case c
    then show ?thesis
      using step_shape [OF assms(2)] by (auto simp: banner_inv_def)
  qed
qed

lemma banner_inv_main: "banner_inv programId (main_with programId sch)"
  unfolding main_with_def
proof (rule exec_invariant [where I = "banner_inv programId"])
  show "banner_inv programId (boot (threads programId))"
    by (simp add: banner_inv_def threads_def main_body_def)
next
  fix s s' :: state and t assume "banner_inv programId s" "step t s = Some s'"
  then show "banner_inv programId s'" by (rule banner_inv_step)
next
  fix s :: state and n assume "banner_inv programId s"
  then show "banner_inv programId (tick n s)" by (simp add: banner_inv_def)
qed

lemma precedes_Nil [simp]: "precedes P Q []"
  by (simp add: precedes_def)

lemma precedes_Cons: "precedes P Q (x # xs) = (P x \<or> (\<not> Q x \<and> precedes P Q xs))"
  by (cases "P x") (simp_all add: precedes_def)

section \<open>The mutex\<close>

lemma held_after_append: "held_after h (xs @ ys) = held_after (held_after h xs) ys"
  by (induction h xs rule: held_after.induct) simp_all

lemma scoped_append: "scoped h (xs @ ys) = (scoped h xs \<and> scoped (held_after h xs) ys)"
  by (induction h xs rule: scoped.induct) auto

lemma held_after_snoc:
  "held_after h (xs @ [c]) = (if c = LockGuard then True else if c = Release then False else held_after h xs)"
  by (cases c) (simp_all add: held_after_append)

lemma scoped_next:
  assumes "reach P s" and "scoped False (P t)"
  shows "scoped (inside t s) (code s t)"
  using assms(2) reach_program_order [OF assms(1), of t]
  by (metis inside_def scoped_append)

lemma history_step_other:
  assumes "step t s = Some s'" and "u \<noteq> t"
  shows "history u s' = history u s" and "code s' u = code s u"
  using step_shape [OF assms(1)] assms(2)
  by (auto simp: history_def thread_events_def)

lemma history_step_self:
  assumes "step t s = Some s'" and "code s t = c # rest"
  shows "(c \<noteq> LockGuard \<and> c \<noteq> Release \<and> inside t s' = inside t s) \<or>
         (history t s' = history t s @ [c] \<and> code s' t = rest)"
  using step_shape [OF assms(1)] assms(2)
  by (auto simp: history_def thread_events_def inside_def)

text \<open>The mutex is owned by exactly the thread that is inside its critical section.\<close>

lemma mutex_owner:
  assumes "reach P s" and sc: "\<And>t. scoped False (P t)"
  shows "\<forall>t. (mutex s = Some t) = inside t s"
  using assms(1)
proof (induction rule: reach_induct)
  case boot
  then show ?case by (simp add: inside_def history_def thread_events_def)
next
  case (step s t s')
  from step_shape [OF step.hyps(2)] obtain c rest where c: "code s t = c # rest" by blast
  have nxt: "scoped (inside t s) (c # rest)"
    using scoped_next [OF step.hyps(1) sc, of t] c by simp
  have other: "inside u s' = inside u s" if "u \<noteq> t" for u
    using history_step_other(1) [OF step.hyps(2) that] by (simp add: inside_def)
  note m = step_fields(2) [OF step.hyps(2) c]
  note self = history_step_self [OF step.hyps(2) c]
  note IH = step.IH [rule_format]
  show ?case
  proof (cases "c = LockGuard")
    case True
    with step_fields(6) [OF step.hyps(2) c] have free: "mutex s = None" by simp
    from True self have in': "inside t s'" by (simp add: inside_def held_after_snoc)
    from True m have m': "mutex s' = Some t" by simp
    show ?thesis
    proof
      fix u show "(mutex s' = Some u) = inside u s'"
      proof (cases "u = t")
        case True
        then show ?thesis using in' m' by simp
      next
        case False
        then show ?thesis using m' other [OF False] IH [of u] free by auto
      qed
    qed
  next
    case False
    note nl = this
    show ?thesis
    proof (cases "c = Release")
      case True
      with nxt have "inside t s" by simp
      with IH [of t] have own: "mutex s = Some t" by simp
      from True self have out': "\<not> inside t s'" by (simp add: inside_def held_after_snoc)
      from True m have m': "mutex s' = None" by simp
      show ?thesis
      proof
        fix u show "(mutex s' = Some u) = inside u s'"
        proof (cases "u = t")
          case True
          then show ?thesis using out' m' by simp
        next
          case False
          then show ?thesis using m' other [OF False] IH [of u] own by auto
        qed
      qed
    next
      case False
      with nl m have m': "mutex s' = mutex s" by (cases c) simp_all
      from False nl self have in': "inside t s' = inside t s"
        by (auto simp: inside_def held_after_snoc)
      show ?thesis
      proof
        fix u show "(mutex s' = Some u) = inside u s'"
          using m' in' other [of u] IH [of u] by (cases "u = t") simp_all
      qed
    qed
  qed
next
  case (tick s n)
  then show ?case by (simp add: inside_def history_def thread_events_def)
qed

lemma wake_inv:
  assumes "reach P s"
  shows "\<forall>t. wake s t = None \<or> (\<exists>d rest. code s t = SleepFor d # rest)"
  using assms
proof (induction rule: reach_induct)
  case boot
  then show ?case by simp
next
  case (step s t s')
  from step_shape [OF step.hyps(2)] obtain c rest where c: "code s t = c # rest" 
    and x: "exec_stmt t c s = Some s'" by blast
  have self: "wake s t = None \<or> (\<exists>d. c = SleepFor d)"
    using step.IH [rule_format, of t] c by auto
  show ?case
  proof
    fix u
    show "wake s' u = None \<or> (\<exists>d rest. code s' u = SleepFor d # rest)"
    proof (cases "u = t")
      case True
      with x c self show ?thesis
        by (cases c) (auto simp: emit_def split: option.splits if_splits)
    next
      case False
      with x have "wake s' u = wake s u" "code s' u = code s u"
        by (cases c; auto simp: emit_def split: option.splits if_splits)+
      with step.IH [rule_format, of u] show ?thesis by simp
    qed
  qed
next
  case (tick s n)
  then show ?case by simp
qed

lemma joined:
  assumes "reach P s"
  shows "\<forall>u. Get u \<in> set (executed s) \<longrightarrow> code s u = []"
  using assms
proof (induction rule: reach_induct)
  case boot
  then show ?case by (simp add: executed_def)
next
  case (step s t s')
  from step_shape [OF step.hyps(2)] obtain c rest where c: "code s t = c # rest" by blast
  show ?case
  proof (intro allI impI)
    fix u assume g: "Get u \<in> set (executed s')"
    show "code s' u = []"
    proof (cases "Get u \<in> set (executed s)")
      case True
      with step.IH have e: "code s u = []" by simp
      with c have "u \<noteq> t" by auto
      with history_step_other(2) [OF step.hyps(2)] e show ?thesis by simp
    next
      case False
      with g step_shape [OF step.hyps(2)] c have cg: "c = Get u"
        by (auto simp: executed_def)
      with step_fields(7) [OF step.hyps(2) c] have e: "code s u = []" by simp
      with c have "u \<noteq> t" by auto
      with history_step_other(2) [OF step.hyps(2)] e show ?thesis by simp
    qed
  qed
next
  case (tick s n)
  then show ?case by (simp add: executed_def)
qed

lemma last_statement:
  assumes "h @ c = xs @ [r]" and "r \<notin> set xs" and "r \<in> set h"
  shows "c = []"
proof (rule ccontr)
  assume "c \<noteq> []"
  then obtain c' l where "c = c' @ [l]" by (metis rev_exhaust)
  with assms(1) have "h @ c' = xs" by simp
  with assms(2,3) show False by auto
qed

lemma scoped_threads: "scoped False (threads programId t)"
  by (simp add: program_defs)

lemma scoped_threads_02_async: "scoped False (threads_02_async t)"
  by (simp add: program_defs)



lemma exited_finished:
  assumes "exit_code (main_with programId sch) = Some r"
  shows "code (main_with programId sch) t = []"
proof -
  let ?s = "main_with programId sch"
  note r = reach_main_with [of programId sch]
  from exit_inv [OF r] assms have "Return r \<in> set (executed ?s)" by auto
  then obtain e where e: "e \<in> set (trace ?s)" "ev_stmt e = Return r"
    by (auto simp: executed_def)
  from event_in_program [OF r e(1)] e(2) have "ev_tid e = 0" "r = 0"
    by (auto simp: program_defs split: if_splits)
  with e have h: "Return 0 \<in> set (history 0 ?s)"
    by (force simp: history_def thread_events_def)
  have "history 0 ?s @ code ?s 0 = ([Cout (format_banner programId), Cout endl] @ switch_body programId) @ [Return 0]"
    using reach_program_order [OF r, of 0] by (simp add: threads_def main_body_def)
  moreover have "Return 0 \<notin> set ([Cout (format_banner programId), Cout endl] @ switch_body programId)"
    by (simp add: program_defs)
  ultimately have c0: "code ?s 0 = []" using h by (rule last_statement)
  with reach_program_order [OF r, of 0] have h0: "history 0 ?s = main_body programId"
    by (simp add: threads_def)
  have sub: "set (history 0 ?s) \<subseteq> set (executed ?s)"
    by (auto simp: history_def thread_events_def executed_def)
  show ?thesis
  proof (cases "t = 0")
    case True
    with c0 show ?thesis by simp
  next
    case False
    show ?thesis
    proof (cases "Get t \<in> set (main_body programId)")
      case True
      with h0 sub have "Get t \<in> set (executed ?s)" by auto
      with joined [OF r] show ?thesis by simp
    next
      case False
      with \<open>t \<noteq> 0\<close> have "threads programId t = []"
        by (auto simp: program_defs split: if_splits)
      with reach_program_order [OF r, of t] show ?thesis by simp
    qed
  qed
qed

lemma held_after_needs_lock: "held_after h xs \<Longrightarrow> h \<or> LockGuard \<in> set xs"
  by (induction h xs rule: held_after.induct) auto

lemma inside_needs_lock:
  assumes "reach P s" and "inside t s"
  shows "LockGuard \<in> set (P t)"
proof -
  from assms(2) have "LockGuard \<in> set (history t s)"
    unfolding inside_def by (auto dest: held_after_needs_lock)
  with reach_program_order [OF assms(1), of t] show ?thesis
    by (metis Un_iff set_append)
qed


lemma count_by_thread:
  assumes "\<forall>e\<in>set tr. ev_tid e = 0 \<or> ev_tid e = coffee \<or> ev_tid e = toast"
  shows "length (filter Q tr) =
           length (filter Q (filter (\<lambda>e. ev_tid e = 0) tr)) +
           length (filter Q (filter (\<lambda>e. ev_tid e = coffee) tr)) +
           length (filter Q (filter (\<lambda>e. ev_tid e = toast) tr))"
  using assms by (induction tr) (auto simp: coffee_def toast_def)


lemma critical_section:
  assumes "mutex (main_with 3 sch) = Some t"
  shows "t = coffee \<or> t = toast"
    and "code (main_with 3 sch) t = drop 1 (threads 3 t) \<or>
         code (main_with 3 sch) t = drop 2 (threads 3 t) \<or>
         code (main_with 3 sch) t = drop 3 (threads 3 t)"
proof -
  let ?s = "main_with 3 sch"
  note r = reach_main_with [of 3 sch]
  from mutex_owner [OF r scoped_threads, rule_format, of t] assms have i: "inside t ?s" by simp
  from inside_needs_lock [OF r i] show t: "t = coffee \<or> t = toast"
    by (auto simp: program_defs split: if_splits)
  from i have h: "held_after False (history t ?s)" by (simp add: inside_def)
  from t reach_program_order [OF r, of t]
  have "history t ?s @ code ?s t = threads 3 t" by simp
  with t h show "code ?s t = drop 1 (threads 3 t) \<or> code ?s t = drop 2 (threads 3 t) \<or>
         code ?s t = drop 3 (threads 3 t)"
    by (auto simp: program_defs append_eq_Cons_conv)
qed

lemma holder_can_step:
  assumes "mutex (main_with 3 sch) = Some t"
  shows "step t (main_with 3 sch) \<noteq> None" and "wake (main_with 3 sch) t = None"
proof -
  let ?s = "main_with 3 sch"
  note r = reach_main_with [of 3 sch]
  note cs = critical_section [OF assms]
  from cs have ne: "code ?s t \<noteq> []"
    by (auto simp: program_defs)
  have ex: "exit_code ?s = None"
  proof (cases "exit_code ?s")
    case (Some r)
    from exited_finished [OF this, of t] ne show ?thesis by simp
  qed simp
  from cs reach_program_order [OF r, of t] have "history t ?s \<noteq> []"
    by (auto simp: program_defs)
  then obtain e where "e \<in> set (trace ?s)" "ev_tid e = t"
    by (auto simp: history_def thread_events_def filter_empty_conv)
  with events_launched [OF r] have l: "launched ?s t" by auto
  from cs l ex show "step t ?s \<noteq> None"
    by (auto simp: step_def program_defs)
  from cs wake_inv [OF r, rule_format, of t] show "wake ?s t = None"
    by (auto simp: program_defs)
qed

lemma filter_prefix_le: "length (filter Q xs) \<le> length (filter Q (xs @ ys))"
  by simp



section \<open>Time\<close>

lemma sorted_times:
  assumes "reach P s"
  shows "sorted (map ev_time (trace s)) \<and> (\<forall>e\<in>set (trace s). ev_time e \<le> clock s)"
  using assms
proof (induction rule: reach_induct)
  case boot
  then show ?case by simp
next
  case (step s t s')
  then show ?case
    using step_shape [OF step.hyps(2)] by (auto simp: sorted_append)
next
  case (tick s n)
  then show ?case by auto
qed

lemma gaps_snoc:
  "gaps (es @ [e]) = (gaps es \<and> (es = [] \<or> ev_time (last es) + nap (ev_stmt e) \<le> ev_time e))"
  by (induction es rule: gaps.induct) auto

lemma gaps_mono:
  "gaps es \<Longrightarrow> sorted (map ev_time es)"
proof (induction es rule: gaps.induct)
  case (3 e e' es)
  then have "ev_time e \<le> ev_time e'" "sorted (map ev_time (e' # es))" by auto
  then show ?case by auto
qed simp_all

lemma gaps_span:
  "gaps (xs @ e1 # mid @ e2 # ys) \<Longrightarrow>
   ev_time e1 + sum_list (map (nap \<circ> ev_stmt) (mid @ [e2])) \<le> ev_time e2"
proof (induction xs)
  case Nil
  then show ?case
  proof (induction mid arbitrary: e1)
    case Nil
    then show ?case by simp
  next
    case (Cons m mid)
    from Cons.prems have "ev_time e1 + nap (ev_stmt m) \<le> ev_time m" "gaps ([] @ m # mid @ e2 # ys)"
      by simp_all
    with Cons.IH [of m] show ?case by simp
  qed
next
  case (Cons x xs)
  then have "gaps (xs @ e1 # mid @ e2 # ys)"
    by (cases xs) simp_all
  with Cons.IH show ?case by simp
qed

lemma thread_events_step:
  assumes "step t s = Some s'"
  shows "thread_events u s' = thread_events u s \<or>
         (u = t \<and> (\<exists>c rest x. code s t = c # rest \<and>
            thread_events t s' = thread_events t s @ [\<lparr>ev_time = clock s, ev_tid = t, ev_stmt = c, ev_out = x\<rparr>]
            \<and> (\<forall>d. c = SleepFor d \<longrightarrow> (\<exists>w. wake s t = Some w \<and> w \<le> clock s))))"
  using step_shape [OF assms] by (cases "u = t") (auto simp: thread_events_def)

lemma wake_step:
  assumes "step t s = Some s'" and "wake s' u = Some w"
  shows "wake s u = Some w \<or> (u = t \<and> trace s' = trace s \<and> (\<exists>d rest. code s t = SleepFor d # rest \<and> w = clock s + d))"
proof -
  from step_shape [OF assms(1)] obtain c rest where c: "code s t = c # rest" 
    and x: "exec_stmt t c s = Some s'" by blast
  from x assms(2) c show ?thesis
    by (cases c) (auto simp: emit_def split: option.splits if_splits)
qed

lemma gaps_inv:
  assumes "reach P s"
  shows "\<forall>t. gaps (thread_events t s) \<and>
           (\<forall>w d rest. wake s t = Some w \<and> code s t = SleepFor d # rest \<longrightarrow>
              (\<forall>e\<in>set (thread_events t s). ev_time e + d \<le> w))"
  using assms
proof (induction rule: reach_induct)
  case boot
  then show ?case by (simp add: thread_events_def)
next
  case (step s t s')
  note st = sorted_times [OF step.hyps(1)]
  show ?case
  proof (intro allI conjI impI ballI)
    fix u
    from thread_events_step [OF step.hyps(2), of u]
    show "gaps (thread_events u s')"
    proof
      assume "thread_events u s' = thread_events u s"
      with step.IH show ?thesis by simp
    next
      assume "u = t \<and> (\<exists>c rest x. code s t = c # rest \<and>
            thread_events t s' = thread_events t s @ [\<lparr>ev_time = clock s, ev_tid = t, ev_stmt = c, ev_out = x\<rparr>]
            \<and> (\<forall>d. c = SleepFor d \<longrightarrow> (\<exists>w. wake s t = Some w \<and> w \<le> clock s)))"
      then obtain c rest x where u: "u = t" and c: "code s t = c # rest"
        and te: "thread_events t s' = thread_events t s @ [\<lparr>ev_time = clock s, ev_tid = t, ev_stmt = c, ev_out = x\<rparr>]"
        and sl: "\<forall>d. c = SleepFor d \<longrightarrow> (\<exists>w. wake s t = Some w \<and> w \<le> clock s)"
        by blast
      have "ev_time (last (thread_events t s)) + nap c \<le> clock s" if ne: "thread_events t s \<noteq> []"
      proof -
        from ne have l: "last (thread_events t s) \<in> set (thread_events t s)" by simp
        then have "last (thread_events t s) \<in> set (trace s)" by (simp add: thread_events_def)
        with st have le: "ev_time (last (thread_events t s)) \<le> clock s" by simp
        show ?thesis
        proof (cases c)
          case (SleepFor d)
          with sl obtain w where w: "wake s t = Some w" "w \<le> clock s" by blast
          with step.IH c SleepFor l have "ev_time (last (thread_events t s)) + d \<le> w" by blast
          with w SleepFor show ?thesis by (simp add: nap_def)
        qed (use le in \<open>simp_all add: nap_def\<close>)
      qed
      with step.IH te u show ?thesis by (auto simp: gaps_snoc)
    qed
  next
    fix u w d rest e
    assume a: "wake s' u = Some w \<and> code s' u = SleepFor d # rest" and e: "e \<in> set (thread_events u s')"
    from a have ws: "wake s' u = Some w" by simp
    from wake_step [OF step.hyps(2) ws]
    show "ev_time e + d \<le> w"
    proof
      assume w: "wake s u = Some w"
      from wake_inv [OF step.hyps(1), rule_format, of u] w obtain d' rest' where
        cu: "code s u = SleepFor d' # rest'" by auto
      have same: "thread_events u s' = thread_events u s \<and> code s' u = code s u"
      proof (cases "u = t")
        case True
        from step_shape [OF step.hyps(2)] True cu w a show ?thesis
          by (auto simp: thread_events_def emit_def)
      next
        case False
        with step_shape [OF step.hyps(2)] show ?thesis by (auto simp: thread_events_def)
      qed
      with step.IH w a e show ?thesis by auto
    next
      assume "u = t \<and> trace s' = trace s \<and> (\<exists>d rest. code s t = SleepFor d # rest \<and> w = clock s + d)"
      then obtain d' rest' where u: "u = t" and tr: "trace s' = trace s"
        and c: "code s t = SleepFor d' # rest'" and w: "w = clock s + d'" by blast
      from step_shape [OF step.hyps(2)] c tr have "code s' t = code s t" by auto
      with a u c have "d = d'" by simp
      from e tr have "e \<in> set (trace s)" by (simp add: thread_events_def)
      with st have "ev_time e \<le> clock s" by simp
      with w \<open>d = d'\<close> show ?thesis by simp
    qed
  qed
next
  case (tick s n)
  then show ?case by (simp add: thread_events_def)
qed

section \<open>Order\<close>

lemma precedes_iff:
  "precedes A B xs = (\<forall>ys z zs. xs = ys @ z # zs \<and> B z \<longrightarrow> (\<exists>y\<in>set (ys @ [z]). A y))"
proof (induction xs)
  case Nil
  then show ?case by simp
next
  case (Cons x xs)
  show ?case
  proof (cases "A x")
    case True
    then show ?thesis
      by (auto simp: precedes_Cons Cons_eq_append_conv)
  next
    case False
    show ?thesis
    proof
      assume p: "precedes A B (x # xs)"
      with False have nb: "\<not> B x" and pxs: "precedes A B xs" by (auto simp: precedes_Cons)
      show "\<forall>ys z zs. x # xs = ys @ z # zs \<and> B z \<longrightarrow> (\<exists>y\<in>set (ys @ [z]). A y)"
      proof (intro allI impI)
        fix ys z zs assume a: "x # xs = ys @ z # zs \<and> B z"
        show "\<exists>y\<in>set (ys @ [z]). A y"
        proof (cases ys)
          case Nil
          with a nb show ?thesis by simp
        next
          case (Cons y ys')
          with a have "xs = ys' @ z # zs \<and> B z" by simp
          with pxs Cons.IH have "\<exists>y\<in>set (ys' @ [z]). A y" by blast
          with Cons show ?thesis by auto
        qed
      qed
    next
      assume r: "\<forall>ys z zs. x # xs = ys @ z # zs \<and> B z \<longrightarrow> (\<exists>y\<in>set (ys @ [z]). A y)"
      from r [rule_format, of "[]" x xs] False have nb: "\<not> B x" by auto
      have "\<forall>ys z zs. xs = ys @ z # zs \<and> B z \<longrightarrow> (\<exists>y\<in>set (ys @ [z]). A y)"
      proof (intro allI impI)
        fix ys z zs assume a: "xs = ys @ z # zs \<and> B z"
        with r [rule_format, of "x # ys" z zs] False show "\<exists>y\<in>set (ys @ [z]). A y" by auto
      qed
      with Cons.IH have "precedes A B xs" by simp
      with nb False show "precedes A B (x # xs)" by (simp add: precedes_Cons)
    qed
  qed
qed

lemma precedes_snoc:
  "precedes A B (xs @ [c]) = (precedes A B xs \<and> (B c \<longrightarrow> A c \<or> (\<exists>x\<in>set xs. A x)))"
  by (induction xs) (auto simp: precedes_Cons)

lemma precedes_prefix: "precedes A B (xs @ ys) \<Longrightarrow> precedes A B xs"
  by (induction xs) (auto simp: precedes_Cons)

lemma precedes_before:
  "precedes A B (xs @ c # ys) \<Longrightarrow> B c \<Longrightarrow> A c \<or> (\<exists>x\<in>set xs. A x)"
  by (induction xs) (auto simp: precedes_Cons)

lemma precedes_member:
  "precedes A B xs \<Longrightarrow> x \<in> set xs \<Longrightarrow> B x \<Longrightarrow> \<exists>y\<in>set xs. A y"
  by (induction xs) (auto simp: precedes_Cons)

lemma precedes_trans:
  "precedes A B xs \<Longrightarrow> precedes B C xs \<Longrightarrow> precedes A C xs"
proof (induction xs)
  case Nil
  then show ?case by simp
next
  case (Cons x xs)
  show ?case
  proof (cases "A x")
    case True
    then show ?thesis by (simp add: precedes_Cons)
  next
    case False
    with Cons.prems(1) have nb: "\<not> B x" and ab: "precedes A B xs" by (auto simp: precedes_Cons)
    with Cons.prems(2) have nc: "\<not> C x" and bc: "precedes B C xs" by (auto simp: precedes_Cons)
    from Cons.IH [OF ab bc] nc False show ?thesis by (simp add: precedes_Cons)
  qed
qed

text \<open>Order inside one thread carries over to the run, when only this thread has the later
  statement.\<close>

lemma program_precedes:
  assumes "reach P s" and "\<And>t. precedes A B (P t)"
  shows "precedes A B (executed s)"
  using assms(1)
proof (induction rule: reach_induct)
  case boot
  then show ?case by (simp add: executed_def)
next
  case (step s t s')
  from step_shape [OF step.hyps(2)] obtain c rest where c: "code s t = c # rest" by blast
  from step_shape [OF step.hyps(2)] c
  consider (sleep) "trace s' = trace s" | (emit) "executed s' = executed s @ [c]"
    by (auto simp: executed_def)
  then show ?case
  proof cases
    case sleep
    with step.IH show ?thesis by (simp add: executed_def)
  next
    case emit
    have "A c \<or> (\<exists>x\<in>set (executed s). A x)" if "B c"
    proof -
      from reach_program_order [OF step.hyps(1), of t] c assms(2) [of t]
      have "precedes A B (history t s @ c # rest)" by simp
      from precedes_before [OF this that] show ?thesis
        by (auto simp: history_def thread_events_def executed_def)
    qed
    with emit step.IH show ?thesis by (auto simp: precedes_snoc)
  qed
next
  case (tick s n)
  then show ?case by (simp add: executed_def)
qed

text \<open>Everything a thread does precedes the \<^verbatim>\<open>get\<close> on its future.\<close>

lemma join_precedes:
  assumes "reach P s" and "a \<in> set (P u)"
  shows "precedes (\<lambda>c. c = a) (\<lambda>c. c = Get u) (executed s)"
  using assms(1)
proof (induction rule: reach_induct)
  case boot
  then show ?case by (simp add: executed_def)
next
  case (step s t s')
  from step_shape [OF step.hyps(2)] obtain c rest where c: "code s t = c # rest" by blast
  from step_shape [OF step.hyps(2)] c
  consider (sleep) "trace s' = trace s" | (emit) "executed s' = executed s @ [c]"
    by (auto simp: executed_def)
  then show ?case
  proof cases
    case sleep
    with step.IH show ?thesis by (simp add: executed_def)
  next
    case emit
    have "a \<in> set (executed s)" if "c = Get u"
    proof -
      from step_fields(7) [OF step.hyps(2) c that] have "code s u = []" by simp
      with reach_program_order [OF step.hyps(1), of u] assms(2) have "a \<in> set (history u s)" by simp
      then show ?thesis by (auto simp: history_def thread_events_def executed_def)
    qed
    with emit step.IH show ?thesis by (auto simp: precedes_snoc)
  qed
next
  case (tick s n)
  then show ?case by (simp add: executed_def)
qed

lemma reach_thread_events: "reach P s \<Longrightarrow> map ev_stmt (thread_events t s) @ code s t = P t"
  using reach_program_order [of P s t] by (simp add: history_def)

text \<open>Between two statements of one thread time advances at least by the sleeps between
  them.\<close>

lemma thread_gap:
  assumes r: "reach P s" and p: "P t = xs @ a # mid @ b # ys"
    and ua: "a \<notin> set xs" "a \<notin> set mid" "a \<noteq> b" "a \<notin> set ys"
    and ub: "b \<notin> set xs" "b \<notin> set mid" "b \<notin> set ys"
    and e1: "e1 \<in> set (thread_events t s)" "ev_stmt e1 = a"
    and e2: "e2 \<in> set (thread_events t s)" "ev_stmt e2 = b"
  shows "ev_time e1 + sum_list (map nap (mid @ [b])) \<le> ev_time e2"
proof -
  let ?es = "thread_events t s"
  from e2 have "\<exists>x\<in>set ?es. ev_stmt x = b" by blast
  from split_list_first_prop [OF this] obtain es1 f zs where
    es: "?es = es1 @ f # zs" and f: "ev_stmt f = b" and first: "\<forall>y\<in>set es1. ev_stmt y \<noteq> b"
    by blast
  from reach_thread_events [OF r, of t] es f p
  have eq: "map ev_stmt es1 @ b # (map ev_stmt zs @ code s t) = (xs @ a # mid) @ b # ys"
    by simp
  have nb1: "b \<notin> set (map ev_stmt es1)" using first by auto
  have nb2: "b \<notin> set (xs @ a # mid)" using ua(3) ub(1,2) by auto
  from append_Cons_eq_iff [OF nb2 ub(3), of "map ev_stmt es1" "map ev_stmt zs @ code s t"] eq [symmetric]
  have pre: "map ev_stmt es1 = xs @ a # mid" and post: "map ev_stmt zs @ code s t = ys"
    by simp_all
  from post have zs: "set (map ev_stmt zs) \<subseteq> set ys" by auto
  from pre obtain ex ea em where es1: "es1 = ex @ ea # em" and ex: "map ev_stmt ex = xs"
    and ea: "ev_stmt ea = a" and em: "map ev_stmt em = mid"
    by (auto simp: map_eq_append_conv map_eq_Cons_conv)
  have in_ex: "ev_stmt x \<in> set xs" if "x \<in> set ex" for x using that ex by auto
  have in_em: "ev_stmt x \<in> set mid" if "x \<in> set em" for x using that em by auto
  have in_zs: "ev_stmt x \<in> set ys" if "x \<in> set zs" for x using that zs by auto
  from e1(1) es es1 have "e1 \<in> set ex \<or> e1 = ea \<or> e1 \<in> set em \<or> e1 = f \<or> e1 \<in> set zs" by auto
  with e1(2) ua f in_ex in_em in_zs have e1a: "e1 = ea" by blast
  from e2(1) es es1 have "e2 \<in> set ex \<or> e2 = ea \<or> e2 \<in> set em \<or> e2 = f \<or> e2 \<in> set zs" by auto
  with e2(2) ub ua(3) ea in_ex in_em in_zs have e2f: "e2 = f" by blast
  from gaps_inv [OF r, rule_format, of t] have "gaps (thread_events t s)" by blast
  with es es1 have "gaps (ex @ ea # em @ f # zs)" by simp
  from gaps_span [OF this] have "ev_time ea + sum_list (map (nap \<circ> ev_stmt) (em @ [f])) \<le> ev_time f" .
  moreover have "map (nap \<circ> ev_stmt) (em @ [f]) = map nap (mid @ [b])"
    using em f by auto
  ultimately show ?thesis using e1a e2f by simp
qed

lemma run_gap:
  assumes r: "reach P s" and p: "P t = xs @ a # mid @ b # ys"
    and ua: "a \<notin> set xs" "a \<notin> set mid" "a \<noteq> b" "a \<notin> set ys"
    and ub: "b \<notin> set xs" "b \<notin> set mid" "b \<notin> set ys"
    and other: "\<And>u. u \<noteq> t \<Longrightarrow> a \<notin> set (P u) \<and> b \<notin> set (P u)"
    and e1: "e1 \<in> set (trace s)" "ev_stmt e1 = a"
    and e2: "e2 \<in> set (trace s)" "ev_stmt e2 = b"
  shows "ev_time e1 + sum_list (map nap (mid @ [b])) \<le> ev_time e2"
proof -
  from event_in_program [OF r e1(1)] e1(2) other have "ev_tid e1 = t" by auto
  with e1(1) have 1: "e1 \<in> set (thread_events t s)" by (simp add: thread_events_def)
  from event_in_program [OF r e2(1)] e2(2) other have "ev_tid e2 = t" by auto
  with e2(1) have 2: "e2 \<in> set (thread_events t s)" by (simp add: thread_events_def)
  from thread_gap [OF r p ua ub 1 e1(2) 2 e2(2)] show ?thesis .
qed

lemma banner_not_message [simp]:
  "format_banner programId \<noteq> ''Creating coffee...''" "format_banner programId \<noteq> ''Created coffee!''"
  "format_banner programId \<noteq> ''Creating toast...''" "format_banner programId \<noteq> ''Created toast!''"
  "format_banner programId \<noteq> ''Total time = ''" "format_banner programId \<noteq> '' seconds''"
  "format_banner programId \<noteq> endl"
  by (simp_all add: format_banner_def endl_def)

lemmas message_not_banner [simp] = banner_not_message [symmetric]

lemma endl_not_message [simp]:
  "endl \<noteq> ''Creating coffee...''" "endl \<noteq> ''Created coffee!''"
  "endl \<noteq> ''Creating toast...''" "endl \<noteq> ''Created toast!''"
  "endl \<noteq> ''Total time = ''" "endl \<noteq> '' seconds''"
  by (simp_all add: endl_def)

lemmas message_not_endl [simp] = endl_not_message [symmetric]

lemma thread_gaps: "reach P s \<Longrightarrow> gaps (thread_events t s)"
  using gaps_inv [of P s] by blast

lemma coffee_sleeps:
  assumes r: "reach P s" and P: "P = threads programId \<or> P = threads_02_async"
    and "e1 \<in> set (trace s)" "ev_stmt e1 = Cout ''Creating coffee...''"
    and "e2 \<in> set (trace s)" "ev_stmt e2 = Cout ''Created coffee!''"
  shows "ev_time e1 + 2000 \<le> ev_time e2"
proof -
  from event_in_program [OF r assms(3)] assms(4)
  have "Cout ''Creating coffee...'' \<in> set (P (ev_tid e1))" by simp
  with P consider (seq) "P = threads 1" | (async) "P = threads 2" | (synced) "P = threads 3"
    | (async') "P = threads_02_async"
    by (auto simp: program_defs split: if_splits)
  then show ?thesis
  proof cases
    case seq
    have "ev_time e1 + sum_list (map nap ([Cout endl, SleepFor 2000] @ [Cout ''Created coffee!''])) \<le> ev_time e2"
      by (rule run_gap [OF r, where t = 0 and xs = "[Cout (format_banner 1), Cout endl, NowStart]"
            and a = "Cout ''Creating coffee...''" and ys = "Cout endl # CreateToast_01 @ [NowStop] @ report @ [Return 0]"])
         (use assms seq in \<open>simp_all add: program_defs\<close>)
    then show ?thesis by (simp add: nap_def)
  next
    case async
    have "ev_time e1 + sum_list (map nap ([Cout endl, SleepFor 2000] @ [Cout ''Created coffee!''])) \<le> ev_time e2"
      by (rule run_gap [OF r, where t = coffee and xs = "[]"
            and a = "Cout ''Creating coffee...''" and ys = "[Cout endl]"])
         (use assms async in \<open>simp_all add: program_defs\<close>)
    then show ?thesis by (simp add: nap_def)
  next
    case async'
    have "ev_time e1 + sum_list (map nap ([Cout endl, SleepFor 2000] @ [Cout ''Created coffee!''])) \<le> ev_time e2"
      by (rule run_gap [OF r, where t = coffee and xs = "[]"
            and a = "Cout ''Creating coffee...''" and ys = "[Cout endl]"])
         (use assms async' in \<open>simp_all add: program_defs\<close>)
    then show ?thesis by (simp add: nap_def)
  next
    case synced
    have "ev_time e1 + sum_list (map nap ([Cout endl, Release, SleepFor 2000] @ [Cout ''Created coffee!''])) \<le> ev_time e2"
      by (rule run_gap [OF r, where t = coffee and xs = "[LockGuard]"
            and a = "Cout ''Creating coffee...''" and ys = "[Cout endl]"])
         (use assms synced in \<open>simp_all add: program_defs\<close>)
    then show ?thesis by (simp add: nap_def)
  qed
qed

lemma toast_sleeps:
  assumes r: "reach P s" and P: "P = threads programId \<or> P = threads_02_async"
    and "e1 \<in> set (trace s)" "ev_stmt e1 = Cout ''Creating toast...''"
    and "e2 \<in> set (trace s)" "ev_stmt e2 = Cout ''Created toast!''"
  shows "ev_time e1 + 3000 \<le> ev_time e2"
proof -
  from event_in_program [OF r assms(3)] assms(4)
  have "Cout ''Creating toast...'' \<in> set (P (ev_tid e1))" by simp
  with P consider (seq) "P = threads 1" | (async) "P = threads 2" | (synced) "P = threads 3"
    | (async') "P = threads_02_async"
    by (auto simp: program_defs split: if_splits)
  then show ?thesis
  proof cases
    case seq
    have "ev_time e1 + sum_list (map nap ([Cout endl, SleepFor 3000] @ [Cout ''Created toast!''])) \<le> ev_time e2"
      by (rule run_gap [OF r, where t = 0 and xs = "[Cout (format_banner 1), Cout endl, NowStart] @ CreateCoffee_01"
            and a = "Cout ''Creating toast...''" and ys = "Cout endl # [NowStop] @ report @ [Return 0]"])
         (use assms seq in \<open>simp_all add: program_defs\<close>)
    then show ?thesis by (simp add: nap_def)
  next
    case async
    have "ev_time e1 + sum_list (map nap ([Cout endl, SleepFor 3000] @ [Cout ''Created toast!''])) \<le> ev_time e2"
      by (rule run_gap [OF r, where t = toast and xs = "[]"
            and a = "Cout ''Creating toast...''" and ys = "[Cout endl]"])
         (use assms async in \<open>simp_all add: program_defs\<close>)
    then show ?thesis by (simp add: nap_def)
  next
    case async'
    have "ev_time e1 + sum_list (map nap ([Cout endl, SleepFor 3000] @ [Cout ''Created toast!''])) \<le> ev_time e2"
      by (rule run_gap [OF r, where t = toast and xs = "[]"
            and a = "Cout ''Creating toast...''" and ys = "[Cout endl]"])
         (use assms async' in \<open>simp_all add: program_defs\<close>)
    then show ?thesis by (simp add: nap_def)
  next
    case synced
    have "ev_time e1 + sum_list (map nap ([Cout endl, Release, SleepFor 3000] @ [Cout ''Created toast!''])) \<le> ev_time e2"
      by (rule run_gap [OF r, where t = toast and xs = "[LockGuard]"
            and a = "Cout ''Creating toast...''" and ys = "[Cout endl]"])
         (use assms synced in \<open>simp_all add: program_defs\<close>)
    then show ?thesis by (simp add: nap_def)
  qed
qed



lemma event_of_thread:
  assumes "reach P s" and "e \<in> set (trace s)" and "\<And>u. u \<noteq> t \<Longrightarrow> ev_stmt e \<notin> set (P u)"
  shows "ev_tid e = t" and "ev_stmt e \<in> set (history t s)"
proof -
  from event_in_program [OF assms(1,2)] assms(3) show "ev_tid e = t" by blast
  with assms(2) show "ev_stmt e \<in> set (history t s)"
    by (force simp: history_def thread_events_def)
qed

lemma not_yet_executed:
  assumes "reach P s" and "code s t = a # rest" and "P t = xs @ a # ys" and "a \<notin> set xs" "a \<notin> set ys"
    and "\<And>u. u \<noteq> t \<Longrightarrow> a \<notin> set (P u)"
  shows "\<forall>e\<in>set (trace s). ev_stmt e \<noteq> a"
proof
  fix e assume e: "e \<in> set (trace s)"
  show "ev_stmt e \<noteq> a"
  proof
    assume a: "ev_stmt e = a"
    with event_of_thread [OF assms(1) e, of t] assms(6) have "a \<in> set (history t s)" by auto
    moreover from reach_program_order [OF assms(1), of t] assms(2,3)
    have "history t s @ a # rest = xs @ a # ys" by simp
    with append_Cons_eq_iff [OF assms(4,5), of "history t s" rest] have "history t s = xs" by simp
    ultimately show False using assms(4) by simp
  qed
qed

text \<open>A clock variable that is written once holds the time of that statement.\<close>

lemma start_read_once:
  assumes "reach P s" and p: "P t = xs @ NowStart # ys" and "NowStart \<notin> set xs" "NowStart \<notin> set ys"
    and o: "\<And>u. u \<noteq> t \<Longrightarrow> NowStart \<notin> set (P u)"
  shows "\<forall>e\<in>set (trace s). ev_stmt e = NowStart \<longrightarrow> ev_time e = start s"
  using assms(1)
proof (induction rule: reach_induct)
  case boot
  then show ?case by simp
next
  case (step s u s')
  from step_shape [OF step.hyps(2)] obtain c rest where c: "code s u = c # rest" by blast
  show ?case
  proof (cases "c = NowStart")
    case True
    with c reach_program_order [OF step.hyps(1), of u] o [of u] have "u = t" by (metis in_set_conv_decomp)
    with not_yet_executed [OF step.hyps(1) _ p assms(3,4) o] c True
    have "\<forall>e\<in>set (trace s). ev_stmt e \<noteq> NowStart" by simp
    with step_shape [OF step.hyps(2)] c True step_fields(3) [OF step.hyps(2) c] show ?thesis
      by auto
  next
    case False
    with step_fields(3) [OF step.hyps(2) c] have "start s' = start s" by (cases c) simp_all
    with step_shape [OF step.hyps(2)] c False step.IH show ?thesis by auto
  qed
next
  case (tick s n)
  then show ?case by simp
qed

lemma stop_read_once:
  assumes "reach P s" and p: "P t = xs @ NowStop # ys" and "NowStop \<notin> set xs" "NowStop \<notin> set ys"
    and o: "\<And>u. u \<noteq> t \<Longrightarrow> NowStop \<notin> set (P u)"
  shows "\<forall>e\<in>set (trace s). ev_stmt e = NowStop \<longrightarrow> ev_time e = stop s"
  using assms(1)
proof (induction rule: reach_induct)
  case boot
  then show ?case by simp
next
  case (step s u s')
  from step_shape [OF step.hyps(2)] obtain c rest where c: "code s u = c # rest" by blast
  show ?case
  proof (cases "c = NowStop")
    case True
    with c reach_program_order [OF step.hyps(1), of u] o [of u] have "u = t" by (metis in_set_conv_decomp)
    with not_yet_executed [OF step.hyps(1) _ p assms(3,4) o] c True
    have "\<forall>e\<in>set (trace s). ev_stmt e \<noteq> NowStop" by simp
    with step_shape [OF step.hyps(2)] c True step_fields(4) [OF step.hyps(2) c] show ?thesis
      by auto
  next
    case False
    with step_fields(4) [OF step.hyps(2) c] have "stop s' = stop s" by (cases c) simp_all
    with step_shape [OF step.hyps(2)] c False step.IH show ?thesis by auto
  qed
next
  case (tick s n)
  then show ?case by simp
qed

lemma report_last_append:
  "report_last (xs @ c # ys) \<Longrightarrow> c = NowStart \<or> c = NowStop \<Longrightarrow> CoutCount \<notin> set xs"
  by (induction xs rule: report_last.induct) auto

lemma count_out:
  assumes "reach P s" and rl: "report_last (P 0)"
    and o: "\<And>u. u \<noteq> 0 \<Longrightarrow> NowStart \<notin> set (P u) \<and> NowStop \<notin> set (P u) \<and> CoutCount \<notin> set (P u)"
  shows "\<forall>e\<in>set (trace s). ev_stmt e = CoutCount \<longrightarrow> ev_out e = count_text s"
  using assms(1)
proof (induction rule: reach_induct)
  case boot
  then show ?case by simp
next
  case (step s u s')
  from step_shape [OF step.hyps(2)] obtain c rest where c: "code s u = c # rest"
    and x: "exec_stmt u c s = Some s'" by blast
  show ?case
  proof (cases "c = NowStart \<or> c = NowStop")
    case True
    with c reach_program_order [OF step.hyps(1), of u] o [of u] have u: "u = 0"
      by (metis in_set_conv_decomp)
    with reach_program_order [OF step.hyps(1), of 0] c rl have "report_last (history 0 s @ c # rest)"
      by simp
    from report_last_append [OF this True] have no: "CoutCount \<notin> set (history 0 s)" .
    have "ev_stmt e \<noteq> CoutCount" if "e \<in> set (trace s)" for e
      using event_of_thread(2) [OF step.hyps(1) that, of 0] o no by auto
    with step_shape [OF step.hyps(2)] c True show ?thesis by auto
  next
    case False
    with step_fields(3,4) [OF step.hyps(2) c] have "count_text s' = count_text s"
      by (cases c) (simp_all add: count_text_def)
    with x c False step.IH show ?thesis
      by (cases c) (auto simp: emit_def split: option.splits if_splits)
  qed
next
  case (tick s n)
  then show ?case by (simp add: count_text_def)
qed

lemma console_text:
  assumes "reach P s" and "\<forall>e\<in>set (trace s). ev_stmt e = CoutCount \<longrightarrow> ev_out e = count_text s"
  shows "console s = concat (map (stmt_text s) (executed s))"
proof -
  have "ev_out e = stmt_text s (ev_stmt e)" if "e \<in> set (trace s)" for e
    using that assms(2) cout_out [OF assms(1)] silent_out [OF assms(1)]
    by (cases "ev_stmt e") (auto simp: stmt_text_def)
  then have m: "map ev_out (trace s) = map (stmt_text s \<circ> ev_stmt) (trace s)"
    by (intro map_cong) simp_all
  show ?thesis unfolding console_def executed_def map_map m by (rule refl)
qed

section \<open>Overhead\<close>

lemma start_le_clock:
  assumes "reach P s"
  shows "start s \<le> clock s \<and> stop s \<le> clock s"
  using assms
proof (induction rule: reach_induct)
  case boot
  then show ?case by simp
next
  case (step s t s')
  from step_shape [OF step.hyps(2)] obtain c rest where c: "code s t = c # rest"
    and k: "clock s' = clock s" by blast
  from step_fields(3,4) [OF step.hyps(2) c] step.IH k show ?case
    by (cases c) simp_all
next
  case (tick s n)
  then show ?case by simp
qed

lemma main_launched:
  assumes "reach P s"
  shows "launched s 0"
  using assms
proof (induction rule: reach_induct)
  case boot
  then show ?case by simp
next
  case (step s t s')
  from step_shape [OF step.hyps(2)] obtain c rest where c: "code s t = c # rest" by blast
  from step_fields(1) [OF step.hyps(2) c] step.IH show ?case
    by (cases c) simp_all
next
  case (tick s n)
  then show ?case by simp
qed

lemma launched_after_async:
  assumes "reach P s"
  shows "\<forall>u. Async u \<in> set (executed s) \<longrightarrow> launched s u"
  using assms
proof (induction rule: reach_induct)
  case boot
  then show ?case by (simp add: executed_def)
next
  case (step s t s')
  from step_shape [OF step.hyps(2)] obtain c rest where c: "code s t = c # rest" by blast
  from step_shape [OF step.hyps(2)] c step_fields(1) [OF step.hyps(2) c] step.IH show ?case
    by (cases c) (auto simp: executed_def)
next
  case (tick s n)
  then show ?case by (simp add: executed_def)
qed

text \<open>The remaining sleep of a thread does not change when a thread takes a step, and a
  delay shortens it by the time a sleeping thread has slept.\<close>

lemma rest_nap_step:
  assumes "reach P s" and "step t s = Some s'"
  shows "rest_nap s' u = rest_nap s u"
proof -
  from step_shape [OF assms(2)] obtain c rest where c: "code s t = c # rest"
    and x: "exec_stmt t c s = Some s'" and k: "clock s' = clock s" by blast
  show ?thesis
  proof (cases "u = t")
    case False
    with x have "wake s' u = wake s u" "code s' u = code s u"
      by (cases c; auto simp: emit_def split: option.splits if_splits)+
    with k show ?thesis by (simp add: rest_nap_def split: option.splits)
  next
    case True
    from wake_inv [OF assms(1), rule_format, of t] c
    have w: "wake s t = None \<or> (\<exists>d. c = SleepFor d)" by auto
    from x c w True show ?thesis
      by (cases c) (auto simp: rest_nap_def nap_def emit_def split: option.splits if_splits)
  qed
qed

lemma rest_nap_tick:
  "rest_nap (tick n s) u \<le> rest_nap s u"
  "wake s u = None \<Longrightarrow> rest_nap (tick n s) u = rest_nap s u"
  "wake s u = Some w \<Longrightarrow> k \<le> n \<Longrightarrow> k \<le> w - clock s \<Longrightarrow> rest_nap (tick n s) u + k \<le> rest_nap s u"
  by (auto simp: rest_nap_def split: option.splits)

lemma longest_step:
  assumes "reach P s" and "step t s = Some s'"
  shows "longest s' = longest s"
  by (simp add: longest_def rest_nap_step [OF assms])

lemma longest_tick: "longest (tick n s) \<le> longest s"
  unfolding longest_def
  using rest_nap_tick(1) [of n s 0] rest_nap_tick(1) [of n s coffee] rest_nap_tick(1) [of n s toast]
  by linarith

lemma reach_family:
  assumes "reach P s" and "P = threads programId \<or> P = threads_02_async"
  shows "(\<exists>sch. s = main_with programId sch \<and> P = threads programId) \<or> (\<exists>sch. s = main_02_async sch \<and> P = threads_02_async)"
  using assms unfolding reach_def main_with_def main_02_async_def by blast

lemma exited_done:
  assumes r: "reach P s" and P: "P = threads programId \<or> P = threads_02_async"
    and e: "exit_code s = Some r"
  shows "code s t = []"
proof -
  from exit_inv [OF r] e have "Return r \<in> set (executed s)" by auto
  then obtain ev where ev: "ev \<in> set (trace s)" "ev_stmt ev = Return r"
    by (auto simp: executed_def)
  from event_in_program [OF r ev(1)] ev(2) P have "ev_tid ev = 0" "r = 0"
    by (auto simp: program_defs split: if_splits)
  with ev have h: "Return 0 \<in> set (history 0 s)"
    by (force simp: history_def thread_events_def)
  from P obtain body where b: "P 0 = body @ [Return 0]" "Return 0 \<notin> set body"
    by (auto simp: program_defs)
  with reach_program_order [OF r, of 0] have "history 0 s @ code s 0 = body @ [Return 0]" by simp
  from this b(2) h have c0: "code s 0 = []" by (rule last_statement)
  with reach_program_order [OF r, of 0] have h0: "history 0 s = P 0" by simp
  have sub: "set (history 0 s) \<subseteq> set (executed s)"
    by (auto simp: history_def thread_events_def executed_def)
  show ?thesis
  proof (cases "t = 0")
    case True
    with c0 show ?thesis by simp
  next
    case False
    show ?thesis
    proof (cases "Get t \<in> set (P 0)")
      case True
      with h0 sub have "Get t \<in> set (executed s)" by auto
      with joined [OF r] show ?thesis by simp
    next
      case False
      with \<open>t \<noteq> 0\<close> P have "P t = []"
        by (auto simp: program_defs split: if_splits)
      with reach_program_order [OF r, of t] show ?thesis by simp
    qed
  qed
qed

lemma no_sleep_sum: "(\<And>d. SleepFor d \<notin> set cs) \<Longrightarrow> sum_list (map nap cs) = 0"
proof (induction cs)
  case (Cons c cs)
  then show ?case by (cases c) (auto simp: nap_def)
qed simp

lemma suffix_subset: "h @ c = p \<Longrightarrow> set c \<subseteq> set p"
  by auto

text \<open>When no thread can take a step, every thread that is not asleep has no sleep left,
  and every worker that is not asleep has finished.\<close>

lemma stuck_asleep:
  assumes r: "reach P s" and P: "P = threads programId \<or> P = threads_02_async"
    and stuck: "\<forall>t\<in>set tids. \<not> runnable s t" and e: "exit_code s = None"
    and w: "wake s u = None"
  shows "sum_list (map nap (code s u)) = 0" and "u \<noteq> 0 \<Longrightarrow> code s u = []"
proof -
  note po = reach_program_order [OF r]
  have l0: "launched s 0" by (rule main_launched [OF r])
  from stuck have s0: "step 0 s = None" and sc: "step coffee s = None" and st: "step toast s = None"
    by (simp_all add: tids_def runnable_def)
  have worker: "code s u = []" if u: "u \<noteq> 0"
  proof (rule ccontr)
    assume ne: "code s u \<noteq> []"
    then obtain c rest where c: "code s u = c # rest" by (cases "code s u") auto
    from po [of u] ne have "P u \<noteq> []" by auto
    with u P have uw: "u = coffee \<or> u = toast" and conc: "P = threads 2 \<or> P = threads 3 \<or> P = threads_02_async"
      by (auto simp: program_defs split: if_splits)
    show False
    proof (cases "launched s u")
      case False
      with launched_after_async [OF r] have "Async u \<notin> set (executed s)" by blast
      then have "Async u \<notin> set (history 0 s)"
        by (auto simp: history_def thread_events_def executed_def)
      moreover from uw conc have "Async u \<in> set (P 0)" by (auto simp: program_defs)
      ultimately have "Async u \<in> set (code s 0)" using po [of 0] by (metis Un_iff set_append)
      with po [of 0] conc uw have "\<exists>c' rest'. code s 0 = c' # rest' \<and> exec_stmt 0 c' s \<noteq> None"
        by (auto simp: program_defs append_eq_Cons_conv)
      with l0 e s0 show False by (auto simp: step_def)
    next
      case True
      with sc st uw c e have x: "exec_stmt u c s = None" by (auto simp: step_def)
      from po [of u] c have "c \<in> set (P u)" by (metis in_set_conv_decomp)
      with uw conc have "(\<exists>x. c = Cout x) \<or> (\<exists>d. c = SleepFor d) \<or> c = LockGuard \<or> c = Release"
        by (auto simp: program_defs)
      with x w have lk: "c = LockGuard" and m: "mutex s \<noteq> None"
        by (auto split: if_splits)
      with \<open>c \<in> set (P u)\<close> uw conc have P3: "P = threads 3" by (auto simp: program_defs)
      with r obtain sch where s: "s = main_with 3 sch" unfolding reach_def main_with_def by blast
      from m obtain v where v: "mutex s = Some v" by auto
      from critical_section(1) [of sch v] holder_can_step(1) [of sch v] v s
      have "v \<in> set tids" "step v s \<noteq> None" by (auto simp: tids_def)
      with stuck show False by (auto simp: runnable_def)
    qed
  qed
  then show "u \<noteq> 0 \<Longrightarrow> code s u = []" .
  show "sum_list (map nap (code s u)) = 0"
  proof (cases "u = 0")
    case False
    with worker show ?thesis by simp
  next
    case True
    show ?thesis
    proof (cases "code s 0")
      case Nil
      with True show ?thesis by simp
    next
      case (Cons c rest)
      with s0 l0 e have x: "exec_stmt 0 c s = None" by (simp add: step_def)
      from po [of 0] Cons have cin: "c \<in> set (P 0)" by (metis in_set_conv_decomp)
      from x w True have "(\<exists>v. c = Get v) \<or> c = LockGuard"
        by (cases c) (auto split: if_splits)
      with cin P have "P = threads 2 \<or> P = threads 3 \<or> P = threads_02_async"
        by (auto simp: program_defs split: if_splits)
      then have "SleepFor d \<notin> set (P 0)" for d by (auto simp: program_defs)
      with suffix_subset [OF po [of 0]] have "SleepFor d \<notin> set (code s 0)" for d by blast
      with True show ?thesis by (simp add: no_sleep_sum)
    qed
  qed
qed

lemma clock_only_main:
  assumes "P = threads programId \<or> P = threads_02_async" and "u \<noteq> 0"
  shows "NowStart \<notin> set (P u)" "NowStop \<notin> set (P u)" "CoutCount \<notin> set (P u)"
  using assms by (auto simp: program_defs split: if_splits)

lemma head_in_program:
  assumes "reach P s" and "code s t = c # rest"
  shows "c \<in> set (P t)"
  using reach_program_order [OF assms(1), of t] assms(2) by (metis in_set_conv_decomp)

lemma due_le: "due s n \<le> n"
  by (simp add: due_def)

lemma nap_in_naps: "t \<in> set tids \<Longrightarrow> wake s t = Some w \<Longrightarrow> w - clock s \<in> set (naps s)"
  unfolding naps_def by (auto intro!: bexI [of _ t])

lemma naps_from: "x \<in> set (naps s) \<Longrightarrow> \<exists>t\<in>set tids. \<exists>w. wake s t = Some w \<and> x = w - clock s"
  by (auto simp: naps_def split: option.splits) metis

lemma rest_nap_ge: "wake s t = Some w \<Longrightarrow> w - clock s \<le> rest_nap s t"
  by (simp add: rest_nap_def)

lemma longest_ge: "t \<in> set tids \<Longrightarrow> rest_nap s t \<le> longest s"
  by (auto simp: tids_def longest_def)

text \<open>A delay shortens the remaining sleep of every thread by its due part, when it has one.
  This holds for programs in which, whenever no thread can take a step, the threads that are
  not asleep have no sleep left (\<open>stuck_asleep\<close> for the programs of the repository).\<close>

lemma due_shortens_longest:
  assumes u: "u \<in> set tids"
    and idle: "\<forall>t\<in>set tids. \<not> runnable s t \<Longrightarrow> wake s u = None \<Longrightarrow> sum_list (map nap (code s u)) = 0"
  shows "rest_nap (tick n s) u + due s n \<le> longest s"
proof (cases "due s n = 0")
  case True
  with rest_nap_tick(1) [of n s u] longest_ge [OF u, of s] show ?thesis by simp
next
  case False
  then have stuck: "\<forall>t\<in>set tids. \<not> runnable s t" and ne: "naps s \<noteq> []"
    and d: "due s n = min n (Min (set (naps s)))"
    by (auto simp: due_def split: if_splits)
  show ?thesis
  proof (cases "wake s u")
    case (Some w)
    from nap_in_naps [OF u Some] have "Min (set (naps s)) \<le> w - clock s" by simp
    with d have "due s n \<le> n" "due s n \<le> w - clock s" by simp_all
    from rest_nap_tick(3) [OF Some this] longest_ge [OF u, of s] show ?thesis by simp
  next
    case None
    from ne obtain x where x: "x \<in> set (naps s)" "Min (set (naps s)) = x"
      by (metis List.finite_set Min_in set_empty)
    from naps_from [OF x(1)] obtain v w where v: "v \<in> set tids" "wake s v = Some w" "x = w - clock s"
      by blast
    from rest_nap_ge [OF v(2)] longest_ge [OF v(1), of s] v(3) x(2) d have "due s n \<le> longest s"
      by simp
    moreover from None idle [OF stuck None] have "rest_nap (tick n s) u = 0"
      by (simp add: rest_nap_def)
    ultimately show ?thesis by simp
  qed
qed

lemma due_shortens:
  assumes r: "reach P s" and P: "P = threads programId \<or> P = threads_02_async"
    and e: "exit_code s = None" and u: "u \<in> set tids"
    and ne: "code s u \<noteq> []" and u0: "u \<noteq> 0"
  shows "rest_nap (tick n s) u + due s n \<le> rest_nap s u"
proof (cases "due s n = 0")
  case True
  with rest_nap_tick(1) [of n s u] show ?thesis by simp
next
  case False
  then have stuck: "\<forall>t\<in>set tids. \<not> runnable s t"
    and d: "due s n = min n (Min (set (naps s)))"
    by (auto simp: due_def split: if_splits)
  show ?thesis
  proof (cases "wake s u")
    case (Some w)
    from nap_in_naps [OF u Some] have "Min (set (naps s)) \<le> w - clock s" by simp
    with d have "due s n \<le> n" "due s n \<le> w - clock s" by simp_all
    from rest_nap_tick(3) [OF Some this] show ?thesis by simp
  next
    case None
    from stuck_asleep(2) [OF r P stuck e None u0] ne show ?thesis by simp
  qed
qed

lemma longest_due:
  assumes idle: "\<And>u. u \<in> set tids \<Longrightarrow> \<forall>t\<in>set tids. \<not> runnable s t \<Longrightarrow> wake s u = None
                   \<Longrightarrow> sum_list (map nap (code s u)) = 0"
  shows "longest (tick n s) + due s n \<le> longest s"
proof -
  have *: "rest_nap (tick n s) u + due s n \<le> longest s" if "u \<in> set tids" for u
    using that idle [OF that] by (rule due_shortens_longest)
  have "rest_nap (tick n s) 0 + due s n \<le> longest s"
    "rest_nap (tick n s) coffee + due s n \<le> longest s"
    "rest_nap (tick n s) toast + due s n \<le> longest s"
    by (rule *, simp add: tids_def)+
  then show ?thesis
    unfolding longest_def by (auto simp: max_def)
qed

lemma elapsed_bound_step:
  assumes r: "reach P s"
    and only: "\<And>u. u \<noteq> 0 \<Longrightarrow> NowStart \<notin> set (P u) \<and> NowStop \<notin> set (P u)"
    and st: "step t s = Some s'"
  shows "elapsed_bound s' \<le> elapsed_bound s"
proof -
  from step_shape [OF st] obtain c rest where c: "code s t = c # rest"
    and k: "clock s' = clock s" by blast
  note l = longest_step [OF r st]
  note f = step_fields(3,4) [OF st c]
  note le = start_le_clock [OF r]
  have main: "t = 0" if "c = NowStart \<or> c = NowStop"
    using that head_in_program [OF r c] only [of t] by auto
  from step_shape [OF st] c have code0: "code s' 0 = code s 0 \<or> (t = 0 \<and> code s' 0 = rest)"
    by (cases "t = 0") auto
  show ?thesis
  proof (cases "c = NowStart")
    case True
    with main c have "NowStart \<in> set (code s 0)" by auto
    with True f k le l show ?thesis by (simp add: elapsed_bound_def)
  next
    case False
    note ns = this
    show ?thesis
    proof (cases "c = NowStop")
      case True
      with main have t0: "t = 0" by simp
      with code0 c True have mem: "(NowStart \<in> set (code s' 0)) = (NowStart \<in> set (code s 0))"
        by auto
      from c t0 True have "NowStop \<in> set (code s 0)" by simp
      with True f k l mem le show ?thesis by (auto simp: elapsed_bound_def)
    next
      case False
      with ns f have same: "start s' = start s" "stop s' = stop s" by (cases c; simp)+
      from ns False code0 c have "set (code s' 0) \<inter> {NowStart, NowStop} = set (code s 0) \<inter> {NowStart, NowStop}"
        by auto
      then have "(NowStart \<in> set (code s' 0)) = (NowStart \<in> set (code s 0))"
        "(NowStop \<in> set (code s' 0)) = (NowStop \<in> set (code s 0))" by auto
      with same k l show ?thesis by (simp add: elapsed_bound_def)
    qed
  qed
qed

lemma elapsed_bound_tick:
  assumes r: "reach P s"
    and idle: "\<And>u. NowStop \<in> set (code s 0) \<Longrightarrow> u \<in> set tids \<Longrightarrow> \<forall>t\<in>set tids. \<not> runnable s t
                 \<Longrightarrow> wake s u = None \<Longrightarrow> sum_list (map nap (code s u)) = 0"
  shows "elapsed_bound (tick n s) + due s n \<le> elapsed_bound s + n"
proof (cases "NowStart \<in> set (code s 0)")
  case True
  with longest_tick [of n s] due_le [of s n] show ?thesis by (simp add: elapsed_bound_def)
next
  case False
  note ns = this
  show ?thesis
  proof (cases "NowStop \<in> set (code s 0)")
    case True
    have "longest (tick n s) + due s n \<le> longest s"
      by (rule longest_due) (rule idle [OF True])
    with start_le_clock [OF r] ns True show ?thesis
      by (simp add: elapsed_bound_def)
  next
    case False
    with ns due_le [of s n] show ?thesis by (simp add: elapsed_bound_def)
  qed
qed

lemma reach_move: "reach P s \<Longrightarrow> reach P (move x s)"
  by (cases x) (auto simp: move_def intro: reach_step reach_tick split: option.splits)

text \<open>The elapsed time still to be expected grows along a run by no more than the overhead.\<close>

lemma elapsed_bound_run:
  assumes r: "reach P s"
    and only: "\<And>u. u \<noteq> 0 \<Longrightarrow> NowStart \<notin> set (P u) \<and> NowStop \<notin> set (P u)"
    and idle: "\<And>s u. reach P s \<Longrightarrow> NowStop \<in> set (code s 0) \<Longrightarrow> u \<in> set tids
                 \<Longrightarrow> \<forall>t\<in>set tids. \<not> runnable s t
                 \<Longrightarrow> wake s u = None \<Longrightarrow> sum_list (map nap (code s u)) = 0"
  shows "elapsed_bound (exec sch s) \<le> elapsed_bound s + overhead sch s"
  using r
proof (induction sch arbitrary: s)
  case Nil
  then show ?case by simp
next
  case (Cons x xs)
  have "elapsed_bound (move x s) \<le> elapsed_bound s + cost x s"
  proof (cases x)
    case (Run t)
    have "elapsed_bound s' \<le> elapsed_bound s" if "step t s = Some s'" for s'
      using Cons.prems _ that by (rule elapsed_bound_step) (rule only)
    with Run show ?thesis
      by (auto simp: move_def cost_def split: option.splits)
  next
    case (Delay n)
    have "elapsed_bound (tick n s) + due s n \<le> elapsed_bound s + n"
      by (rule elapsed_bound_tick [OF Cons.prems]) (rule idle [OF Cons.prems])
    with Delay due_le [of s n] show ?thesis
      by (simp add: move_def cost_def)
  qed
  with Cons.IH [OF reach_move [OF Cons.prems, of x]] show ?case by simp
qed

lemma elapsed_bound_exec:
  assumes r: "reach P s" and P: "P = threads programId \<or> P = threads_02_async"
  shows "elapsed_bound (exec sch s) \<le> elapsed_bound s + overhead sch s"
proof (rule elapsed_bound_run [OF r])
  show "NowStart \<notin> set (P u) \<and> NowStop \<notin> set (P u)" if "u \<noteq> 0" for u
    using clock_only_main [OF P that] by simp
next
  fix s u
  assume r': "reach P s" and live: "NowStop \<in> set (code s 0)"
    and stuck: "\<forall>t\<in>set tids. \<not> runnable s t" and w: "wake s u = None"
  have e: "exit_code s = None"
  proof (cases "exit_code s")
    case (Some x)
    from exited_done [OF r' P Some, of 0] live show ?thesis by simp
  qed simp
  from stuck_asleep(1) [OF r' P stuck e w] show "sum_list (map nap (code s u)) = 0" .
qed

lemma stamp_le_clock:
  assumes "reach P s"
  shows "stamp c s \<le> clock s"
proof (cases "filter (\<lambda>e. ev_stmt e = c) (trace s)")
  case Nil
  then show ?thesis by (simp add: stamp_def)
next
  case (Cons e es)
  then have "e \<in> set (filter (\<lambda>e. ev_stmt e = c) (trace s))" by simp
  then have "e \<in> set (trace s)" by simp
  with sorted_times [OF assms] Cons show ?thesis by (simp add: stamp_def)
qed

lemma stamp_snoc:
  "trace s' = trace s @ [e] \<Longrightarrow> ev_stmt e \<noteq> c \<Longrightarrow> stamp c s' = stamp c s"
  by (simp add: stamp_def)

lemma finish_bound_step:
  assumes r: "reach P s" and P: "P = threads programId \<or> P = threads_02_async"
    and u: "u \<noteq> 0" and only: "\<And>t. t \<noteq> u \<Longrightarrow> c \<notin> set (P t)"
    and st: "step t s = Some s'"
  shows "finish_bound u c s' \<le> finish_bound u c s"
proof -
  from step_shape [OF st] obtain c' rest where c': "code s t = c' # rest"
    and k: "clock s' = clock s" by blast
  note rn = rest_nap_step [OF r st, of u]
  note f = step_fields(3) [OF st c']
  note le = start_le_clock [OF r]
  note r' = reach_step [OF r st]
  have main: "t = 0" if "c' = NowStart"
    using that head_in_program [OF r c'] clock_only_main(1) [OF P, of t] by auto
  have self: "t = u" if "c' = c"
    using that head_in_program [OF r c'] only [of t] by auto
  from step_shape [OF st] c'
  consider (sleep) "trace s' = trace s" "code s' = code s" "\<exists>d. c' = SleepFor d"
    | (emit) e where "trace s' = trace s @ [e]" "ev_stmt e = c'" "code s' = (code s)(t := rest)"
    by auto
  then show ?thesis
  proof cases
    case sleep
    with f have "start s' = start s" by auto
    with sleep k rn show ?thesis by (simp add: finish_bound_def stamp_def)
  next
    case emit
    show ?thesis
    proof (cases "c' = NowStart")
      case True
      with main c' have in0: "NowStart \<in> set (code s 0)" by auto
      from True f have "start s' = clock s" by simp
      moreover from stamp_le_clock [OF r', of c] k have "stamp c s' \<le> clock s" by simp
      ultimately show ?thesis using in0 rn k by (simp add: finish_bound_def)
    next
      case False
      with f have same: "start s' = start s" by (cases c') simp_all
      from False emit(3) c' have m0: "(NowStart \<in> set (code s' 0)) = (NowStart \<in> set (code s 0))"
        by (cases "t = 0") auto
      show ?thesis
      proof (cases "c' = c")
        case True
        with self have tu: "t = u" by simp
        with c' True have inu: "c \<in> set (code s u)" by simp
        from stamp_le_clock [OF r', of c] k have "stamp c s' \<le> clock s" by simp
        with same m0 inu rn k show ?thesis by (auto simp: finish_bound_def)
      next
        case False
        with emit(3) c' have mu: "(c \<in> set (code s' u)) = (c \<in> set (code s u))"
          by (cases "t = u") auto
        from False emit(1,2) have "stamp c s' = stamp c s" by (simp add: stamp_snoc)
        with same m0 mu rn k show ?thesis by (simp add: finish_bound_def)
      qed
    qed
  qed
qed

lemma finish_bound_tick:
  assumes r: "reach P s" and P: "P = threads programId \<or> P = threads_02_async"
    and u: "u = coffee \<or> u = toast"
  shows "finish_bound u c (tick n s) + due s n \<le> finish_bound u c s + n"
proof (cases "NowStart \<in> set (code s 0)")
  case True
  with rest_nap_tick(1) [of n s u] due_le [of s n] show ?thesis by (simp add: finish_bound_def)
next
  case False
  note ns = this
  show ?thesis
  proof (cases "c \<in> set (code s u)")
    case True
    then have ne: "code s u \<noteq> []" by auto
    have e: "exit_code s = None"
    proof (cases "exit_code s")
      case (Some x)
      from exited_done [OF r P Some, of u] ne show ?thesis by simp
    qed simp
    from u have "u \<in> set tids" "u \<noteq> 0" by (auto simp: tids_def coffee_def toast_def)
    from due_shortens [OF r P e this(1) ne this(2), of n] start_le_clock [OF r] ns True
    show ?thesis by (simp add: finish_bound_def)
  next
    case False
    with ns due_le [of s n] show ?thesis by (simp add: finish_bound_def stamp_def)
  qed
qed

lemma finish_bound_exec:
  assumes r: "reach P s" and P: "P = threads programId \<or> P = threads_02_async"
    and u: "u = coffee \<or> u = toast" and only: "\<And>t. t \<noteq> u \<Longrightarrow> c \<notin> set (P t)"
  shows "finish_bound u c (exec sch s) \<le> finish_bound u c s + overhead sch s"
  using r
proof (induction sch arbitrary: s)
  case Nil
  then show ?case by simp
next
  case (Cons x xs)
  from u have u0: "u \<noteq> 0" by (auto simp: coffee_def toast_def)
  have "finish_bound u c (move x s) \<le> finish_bound u c s + cost x s"
  proof (cases x)
    case (Run t)
    with finish_bound_step [OF Cons.prems P u0 only, of t] show ?thesis
      by (auto simp: move_def cost_def split: option.splits)
  next
    case (Delay n)
    with finish_bound_tick [OF Cons.prems P u, of c n] due_le [of s n] show ?thesis
      by (simp add: move_def cost_def)
  qed
  with Cons.IH [OF reach_move [OF Cons.prems, of x]] show ?case by simp
qed

lemma events_tid_family:
  assumes "reach P s" and P: "P = threads programId \<or> P = threads_02_async" and "e \<in> set (trace s)"
  shows "ev_tid e = 0 \<or> ev_tid e = coffee \<or> ev_tid e = toast"
proof (cases "ev_tid e = 0")
  case True
  then show ?thesis by simp
next
  case False
  from events_launched [OF assms(1)] assms(3) have "launched s (ev_tid e)" by simp
  with launched_inv [OF assms(1), of "ev_tid e"] False
  have "Async (ev_tid e) \<in> set (executed s)" by simp
  then obtain a where "a \<in> set (trace s)" "ev_stmt a = Async (ev_tid e)"
    by (auto simp: executed_def)
  with event_in_program [OF assms(1)] obtain t where "Async (ev_tid e) \<in> set (P t)"
    by metis
  with P show ?thesis
    by (auto simp: program_defs split: if_splits)
qed

lemma executed_count_family:
  assumes "reach P s" and P: "P = threads programId \<or> P = threads_02_async"
  shows "length (filter Q (executed s)) =
           length (filter Q (history 0 s)) + length (filter Q (history coffee s)) +
           length (filter Q (history toast s))"
proof -
  have "\<forall>e\<in>set (trace s). ev_tid e = 0 \<or> ev_tid e = coffee \<or> ev_tid e = toast"
    using events_tid_family [OF assms] by blast
  from count_by_thread [OF this, of "Q \<circ> ev_stmt"] show ?thesis
    by (simp add: executed_def history_def thread_events_def filter_map)
qed

text \<open>A statement that stands once in the programs is executed at most once, and then
  \<open>stamp\<close> is the time of its event.\<close>

lemma stamp_unique:
  assumes r: "reach P s" and P: "P = threads programId \<or> P = threads_02_async"
    and once: "length (filter (\<lambda>x. x = c) (P 0)) + length (filter (\<lambda>x. x = c) (P coffee))
               + length (filter (\<lambda>x. x = c) (P toast)) \<le> 1"
    and e: "e \<in> set (trace s)" "ev_stmt e = c"
  shows "stamp c s = ev_time e"
proof -
  have le: "length (filter Q (history t s)) \<le> length (filter Q (P t))" for Q t
    using filter_prefix_le [of Q "history t s" "code s t"] reach_program_order [OF r, of t]
    by simp
  have "length (filter (\<lambda>x. x = c) (executed s)) \<le> 1"
    unfolding executed_count_family [OF r P]
    using le [of "\<lambda>x. x = c" 0] le [of "\<lambda>x. x = c" coffee] le [of "\<lambda>x. x = c" toast] once
    by linarith
  then have l1: "length (filter (\<lambda>e. ev_stmt e = c) (trace s)) \<le> 1"
    by (simp add: executed_def filter_map comp_def)
  from e have "e \<in> set (filter (\<lambda>e. ev_stmt e = c) (trace s))" by simp
  with l1 have "filter (\<lambda>e. ev_stmt e = c) (trace s) = [e]"
    by (cases "filter (\<lambda>e. ev_stmt e = c) (trace s)") auto
  then show ?thesis by (simp add: stamp_def)
qed

lemma exited_events:
  assumes r: "reach P s" and P: "P = threads programId \<or> P = threads_02_async"
    and x: "exit_code s = Some v" and c: "c \<in> set (P t)"
  shows "\<exists>e\<in>set (trace s). ev_stmt e = c \<and> ev_tid e = t"
proof -
  from reach_program_order [OF r, of t] exited_done [OF r P x, of t] have "history t s = P t" by simp
  with c have "c \<in> set (history t s)" by simp
  then show ?thesis by (auto simp: history_def thread_events_def)
qed

text \<open>Everything a thread has done is over when its future's \<^verbatim>\<open>get\<close> returns.\<close>

lemma join_time:
  assumes "reach P s"
  shows "\<forall>g\<in>set (trace s). \<forall>u. ev_stmt g = Get u \<longrightarrow> (\<forall>e\<in>set (thread_events u s). ev_time e \<le> ev_time g)"
  using assms
proof (induction rule: reach_induct)
  case boot
  then show ?case by simp
next
  case (step s t s')
  from step_shape [OF step.hyps(2)] obtain c rest where c: "code s t = c # rest" by blast
  note st = sorted_times [OF step.hyps(1)]
  from step_shape [OF step.hyps(2)] c
  consider (sleep) "trace s' = trace s"
    | (emit) ev where "trace s' = trace s @ [ev]" "ev_stmt ev = c" "ev_time ev = clock s" "ev_tid ev = t"
    by auto
  then show ?case
  proof cases
    case sleep
    with step.IH show ?thesis by (simp add: thread_events_def)
  next
    case emit
    show ?thesis
    proof (intro ballI allI impI)
      fix g u e
      assume g: "g \<in> set (trace s')" and gu: "ev_stmt g = Get u" and e: "e \<in> set (thread_events u s')"
      have fin: "code s u = []"
      proof (cases "g \<in> set (trace s)")
        case True
        with gu have "Get u \<in> set (executed s)" by (force simp: executed_def)
        with joined [OF step.hyps(1)] show ?thesis by simp
      next
        case False
        with g emit gu have "c = Get u" by auto
        with step_fields(7) [OF step.hyps(2) c] show ?thesis by simp
      qed
      with c have "u \<noteq> t" by auto
      with emit e have e': "e \<in> set (thread_events u s)" by (auto simp: thread_events_def)
      show "ev_time e \<le> ev_time g"
      proof (cases "g \<in> set (trace s)")
        case True
        with step.IH gu e' show ?thesis by blast
      next
        case False
        with g emit have "ev_time g = clock s" by auto
        moreover from e' have "e \<in> set (trace s)" by (simp add: thread_events_def)
        ultimately show ?thesis using st by simp
      qed
    qed
  qed
next
  case (tick s n)
  then show ?case by (simp add: thread_events_def)
qed

lemma earlier_precedes:
  assumes "sorted (map ev_time tr)" and "a \<in> set tr" and "A (ev_stmt a)"
    and "\<forall>b\<in>set tr. B (ev_stmt b) \<longrightarrow> ev_time a < ev_time b"
  shows "precedes A B (map ev_stmt tr)"
  using assms
proof (induction tr)
  case Nil
  then show ?case by simp
next
  case (Cons x xs)
  show ?case
  proof (cases "A (ev_stmt x)")
    case True
    then show ?thesis by (simp add: precedes_Cons)
  next
    case False
    with Cons.prems(2,3) have a: "a \<in> set xs" by auto
    with Cons.prems(1) have "ev_time x \<le> ev_time a" by auto
    with Cons.prems(4) have nb: "\<not> B (ev_stmt x)" by fastforce
    from Cons.prems(1) have "sorted (map ev_time xs)" by simp
    from Cons.IH [OF this a Cons.prems(3)] Cons.prems(4) have "precedes A B (map ev_stmt xs)" by simp
    with nb False show ?thesis by (simp add: precedes_Cons)
  qed
qed

lemma executed_once:
  assumes "h @ c = xs @ a # ys" and "a \<notin> set xs" and "a \<notin> set ys" and "a \<in> set h"
  shows "a \<notin> set c"
proof -
  from assms(4) obtain h1 h2 where h: "h = h1 @ a # h2" by (meson split_list)
  with assms(1) have "xs @ a # ys = h1 @ a # (h2 @ c)" by simp
  with append_Cons_eq_iff [OF assms(2,3), of h1 "h2 @ c"] have "h2 @ c = ys" by simp
  with assms(3) show ?thesis by auto
qed

lemma occurs_once:
  assumes "a \<in> set l" and "length (filter (\<lambda>x. x = a) l) \<le> 1"
  shows "\<exists>xs ys. l = xs @ a # ys \<and> a \<notin> set xs \<and> a \<notin> set ys"
proof -
  from split_list_first [OF assms(1)] obtain xs ys where l: "l = xs @ a # ys" "a \<notin> set xs"
    by blast
  with assms(2) have "filter (\<lambda>x. x = a) ys = []" by simp
  then have "a \<notin> set ys" by (auto simp: filter_empty_conv)
  with l show ?thesis by blast
qed

lemma clock_read_once:
  assumes "P = threads programId \<or> P = threads_02_async"
  shows "length (filter (\<lambda>x. x = NowStart) (P 0)) \<le> 1" "length (filter (\<lambda>x. x = NowStop) (P 0)) \<le> 1"
  using assms by (auto simp: program_defs)

lemma started_before_launch:
  assumes r: "reach P s" and P: "P = threads programId \<or> P = threads_02_async"
    and l: "launched s u" and u: "u \<noteq> 0"
  shows "NowStart \<notin> set (code s 0)"
proof -
  from launched_inv [OF r, of u] l u have au: "Async u \<in> set (executed s)" by simp
  have pr: "precedes (\<lambda>c. c = NowStart) (\<lambda>c. c = Async u) (P t)" for t
    using P by (auto simp: program_defs precedes_Cons)
  from precedes_member [OF program_precedes [OF r pr] au] have "NowStart \<in> set (executed s)" by simp
  then obtain e where e: "e \<in> set (trace s)" "ev_stmt e = NowStart" by (auto simp: executed_def)
  from event_of_thread(2) [OF r e(1), of 0] e(2) clock_only_main(1) [OF P]
  have h: "NowStart \<in> set (history 0 s)" by auto
  then have "NowStart \<in> set (P 0)" using reach_program_order [OF r, of 0] by (metis Un_iff set_append)
  from occurs_once [OF this clock_read_once(1) [OF P]]
  obtain xs ys where p: "P 0 = xs @ NowStart # ys" "NowStart \<notin> set xs" "NowStart \<notin> set ys"
    by blast
  from reach_program_order [OF r, of 0] p(1) have "history 0 s @ code s 0 = xs @ NowStart # ys" by simp
  from executed_once [OF this p(2,3) h] show ?thesis .
qed

lemma worker_after_start:
  assumes "reach P s" and P: "P = threads programId \<or> P = threads_02_async"
  shows "\<forall>e\<in>set (trace s). ev_tid e \<noteq> 0 \<longrightarrow> start s \<le> ev_time e"
  using assms(1)
proof (induction rule: reach_induct)
  case boot
  then show ?case by simp
next
  case (step s t s')
  from step_shape [OF step.hyps(2)] obtain c rest where c: "code s t = c # rest"
    and lt: "launched s t" by blast
  note f = step_fields(3) [OF step.hyps(2) c]
  note le = start_le_clock [OF step.hyps(1)]
  from step_shape [OF step.hyps(2)] c
  consider (sleep) "trace s' = trace s" "\<exists>d. c = SleepFor d"
    | (emit) ev where "trace s' = trace s @ [ev]" "ev_stmt ev = c" "ev_time ev = clock s" "ev_tid ev = t"
    by auto
  then show ?case
  proof cases
    case sleep
    with f step.IH show ?thesis by auto
  next
    case emit
    show ?thesis
    proof (cases "c = NowStart")
      case True
      with head_in_program [OF step.hyps(1) c] clock_only_main(1) [OF P, of t] have t0: "t = 0" by auto
      have "ev_tid e = 0" if "e \<in> set (trace s)" for e
      proof (rule ccontr)
        assume n0: "ev_tid e \<noteq> 0"
        from events_launched [OF step.hyps(1)] that have "launched s (ev_tid e)" by simp
        from started_before_launch [OF step.hyps(1) P this n0] c t0 True show False by simp
      qed
      with emit t0 show ?thesis by auto
    next
      case False
      with f have "start s' = start s" by (cases c) simp_all
      with emit step.IH le show ?thesis by auto
    qed
  qed
next
  case (tick s n)
  then show ?case by simp
qed

lemma start_is:
  assumes r: "reach P s" and P: "P = threads programId \<or> P = threads_02_async"
    and e: "e \<in> set (trace s)" "ev_stmt e = NowStart"
  shows "ev_time e = start s"
proof -
  from event_in_program [OF r e(1)] e(2) clock_only_main(1) [OF P, of "ev_tid e"]
  have "NowStart \<in> set (P 0)" by (cases "ev_tid e = 0") auto
  from occurs_once [OF this clock_read_once(1) [OF P]]
  obtain xs ys where p: "P 0 = xs @ NowStart # ys" "NowStart \<notin> set xs" "NowStart \<notin> set ys"
    by blast
  from start_read_once [OF r p clock_only_main(1) [OF P]] e show ?thesis by blast
qed

lemma stop_is:
  assumes r: "reach P s" and P: "P = threads programId \<or> P = threads_02_async"
    and e: "e \<in> set (trace s)" "ev_stmt e = NowStop"
  shows "ev_time e = stop s"
proof -
  from event_in_program [OF r e(1)] e(2) clock_only_main(2) [OF P, of "ev_tid e"]
  have "NowStop \<in> set (P 0)" by (cases "ev_tid e = 0") auto
  from occurs_once [OF this clock_read_once(2) [OF P]]
  obtain xs ys where p: "P 0 = xs @ NowStop # ys" "NowStop \<notin> set xs" "NowStop \<notin> set ys"
    by blast
  from stop_read_once [OF r p clock_only_main(2) [OF P]] e show ?thesis by blast
qed

lemma elapsed_bound_boot:
  "elapsed_bound (boot (threads 1)) = 5000" "elapsed_bound (boot (threads 2)) = 3000"
  "elapsed_bound (boot (threads 3)) = 3000" "elapsed_bound (boot threads_02_async) = 3000"
  by (simp_all add: elapsed_bound_def longest_def rest_nap_def nap_def program_defs)

lemma elapsed_upper:
  assumes P: "P = threads programId \<or> P = threads_02_async"
    and x: "exit_code (exec sch (boot P)) = Some v"
  shows "stop (exec sch (boot P)) - start (exec sch (boot P)) \<le> elapsed_bound (boot P) + overhead sch (boot P)"
proof -
  from exited_done [OF reach_exec P x, of 0]
  have "elapsed_bound (exec sch (boot P)) = stop (exec sch (boot P)) - start (exec sch (boot P))"
    by (simp add: elapsed_bound_def)
  with elapsed_bound_exec [OF reach_boot P, of sch] show ?thesis by simp
qed

text \<open>The sequential program: the two readings of the clock are at least 5000 ms apart.\<close>

lemma sequential_lower:
  assumes r: "reach (threads 1) s" and x: "exit_code s = Some v"
  shows "start s + 5000 \<le> stop s"
proof -
  have P: "threads 1 = threads 1 \<or> threads 1 = threads_02_async" by simp
  from exited_events [OF r P x, of NowStart 0] obtain a where a: "a \<in> set (trace s)" "ev_stmt a = NowStart"
    by (auto simp: program_defs)
  from exited_events [OF r P x, of NowStop 0] obtain n where n: "n \<in> set (trace s)" "ev_stmt n = NowStop"
    by (auto simp: program_defs)
  have "ev_time a + sum_list (map nap ((CreateCoffee_01 @ CreateToast_01) @ [NowStop])) \<le> ev_time n"
    by (rule run_gap [OF r, where t = 0 and xs = "[Cout (format_banner 1), Cout endl]"
          and a = NowStart and ys = "report @ [Return 0]"])
       (use a n in \<open>simp_all add: program_defs\<close>)
  with start_is [OF r P a] stop_is [OF r P n] show ?thesis
    by (simp add: nap_def program_defs)
qed

lemma report_last_family:
  assumes "P = threads programId \<or> P = threads_02_async"
  shows "report_last (P 0)"
  using assms by (auto simp: program_defs)

lemma console_family:
  assumes r: "reach P s" and P: "P = threads programId \<or> P = threads_02_async"
  shows "console s = concat (map (stmt_text s) (executed s))"
proof -
  have "\<forall>e\<in>set (trace s). ev_stmt e = CoutCount \<longrightarrow> ev_out e = count_text s"
    using clock_only_main [OF P] by (intro count_out [OF r report_last_family [OF P]]) simp
  with r show ?thesis by (rule console_text)
qed

lemma count_text_nat:
  assumes "start s \<le> stop s"
  shows "count_text s = show_nat ((stop s - start s) div 1000)"
proof -
  from assms have e: "int (stop s) - int (start s) = int (stop s - start s)" by simp
  have "duration_cast_seconds (int (stop s) - int (start s)) = int ((stop s - start s) div 1000)"
    unfolding e duration_cast_seconds_def by (simp add: zdiv_int)
  then show ?thesis
    unfolding count_text_def show_int_def by simp
qed

lemma count_text_seconds:
  assumes "start s + k * 1000 \<le> stop s" and "stop s < start s + Suc k * 1000"
  shows "count_text s = show_nat k"
proof -
  from assms have "(stop s - start s) div 1000 = k"
    by (intro div_nat_eqI) simp_all
  moreover from assms have "start s \<le> stop s" by simp
  ultimately show ?thesis by (simp add: count_text_nat)
qed

lemma sequential_executed:
  assumes x: "exit_code (main_with 1 sch) = Some v"
  shows "executed (main_with 1 sch) = main_body 1"
proof -
  note r = reach_main_with [of 1 sch]
  have "executed (main_with 1 sch) = history 0 (main_with 1 sch)"
    using r no_async_sequential by (rule single_thread)
  with reach_program_order [OF r, of 0] exited_finished [OF x, of 0] show ?thesis
    by (simp add: threads_def)
qed

lemma banner_text:
  "format_banner 1 = ''Running program , 1...''" "format_banner 2 = ''Running program , 2...''"
  "format_banner 3 = ''Running program , 3...''"
  by (simp_all add: format_banner_def show_int_def show_nat.simps digit_def)

section \<open>The sequential scheduler for any work units\<close>

lemma Run_01_sequential: "Run_01 = run_sequential [(''coffee'', 2000), (''toast'', 3000)]"
  by (simp add: Run_01_def run_sequential_def execute_def CreateCoffee_01_def CreateToast_01_def)

lemma execute_stmts:
  "c \<in> set (concat (map execute units)) \<Longrightarrow> (\<exists>x. c = Cout x) \<or> (\<exists>d. c = SleepFor d)"
  by (auto simp: execute_def)

lemma execute_naps: "sum_list (map nap (concat (map execute units))) = sum_list (map snd units)"
  by (induction units) (auto simp: execute_def nap_def)

lemma exited_main_done:
  assumes r: "reach P s" and p: "P 0 = body @ [Return v]" "Return v \<notin> set body"
    and only: "\<And>u w. u \<noteq> 0 \<Longrightarrow> Return w \<notin> set (P u)"
    and one: "\<And>w. Return w \<in> set (P 0) \<Longrightarrow> w = v"
    and x: "exit_code s = Some w"
  shows "code s 0 = []"
proof -
  from exit_inv [OF r] x have "Return w \<in> set (executed s)" by auto
  then obtain ev where ev: "ev \<in> set (trace s)" "ev_stmt ev = Return w"
    by (auto simp: executed_def)
  from event_of_thread(2) [OF r ev(1), of 0] ev(2) only have h: "Return w \<in> set (history 0 s)" by auto
  with reach_program_order [OF r, of 0] have "Return w \<in> set (P 0)" by (metis Un_iff set_append)
  with one have "w = v" by simp
  from reach_program_order [OF r, of 0] p(1) have "history 0 s @ code s 0 = body @ [Return v]" by simp
  from this p(2) h [unfolded \<open>w = v\<close>] show ?thesis by (rule last_statement)
qed

lemma sequential_threads_facts:
  "sequential_threads units 0 = (NowStart # concat (map execute units) @ NowStop # report) @ [Return 0]"
  "Return 0 \<notin> set (NowStart # concat (map execute units) @ NowStop # report)"
  "u \<noteq> 0 \<Longrightarrow> sequential_threads units u = []"
  "Return w \<in> set (sequential_threads units 0) \<Longrightarrow> w = 0"
  "Get v \<notin> set (sequential_threads units t)" "LockGuard \<notin> set (sequential_threads units t)"
  "Async v \<notin> set (sequential_threads units t)"
  using execute_stmts [where units = units]
  by (auto simp: sequential_threads_def run_sequential_def report_def)

lemma sequential_idle:
  assumes r: "reach (sequential_threads units) s" and live: "NowStop \<in> set (code s 0)"
    and stuck: "\<forall>t\<in>set tids. \<not> runnable s t" and w: "wake s u = None"
  shows "sum_list (map nap (code s u)) = 0"
proof (cases "u = 0")
  case False
  with reach_program_order [OF r, of u] sequential_threads_facts(3) [where u = u and units = units] show ?thesis by simp
next
  case True
  have e: "exit_code s = None"
  proof (cases "exit_code s")
    case (Some x)
    from exited_main_done [OF r sequential_threads_facts(1,2) _ _ Some] sequential_threads_facts(3,4) live
    show ?thesis by fastforce
  qed simp
  from live obtain c rest where c: "code s 0 = c # rest" by (cases "code s 0") auto
  from stuck have "step 0 s = None" by (simp add: tids_def runnable_def)
  with main_launched [OF r] e c have x: "exec_stmt 0 c s = None" by (simp add: step_def)
  from x w True have "(\<exists>v. c = Get v) \<or> c = LockGuard"
    by (cases c) (auto split: if_splits)
  with head_in_program [OF r c] sequential_threads_facts(5,6) [where units = units and t = 0] show ?thesis by auto
qed

lemma history_event: "c \<in> set (history t s) \<Longrightarrow> \<exists>e\<in>set (trace s). ev_stmt e = c \<and> ev_tid e = t"
  by (auto simp: history_def thread_events_def)

lemma sequential_units_elapsed:
  assumes x: "exit_code (exec sch (boot (sequential_threads units))) = Some v"
  shows "start (exec sch (boot (sequential_threads units))) + sum_list (map snd units)
           \<le> stop (exec sch (boot (sequential_threads units)))"
    and "stop (exec sch (boot (sequential_threads units)))
           \<le> start (exec sch (boot (sequential_threads units))) + sum_list (map snd units)
              + overhead sch (boot (sequential_threads units))"
proof -
  let ?P = "sequential_threads units"
  let ?s = "exec sch (boot ?P)"
  let ?mid = "concat (map execute units)"
  have r: "reach ?P ?s" by (rule reach_exec)
  have other: "?P u = []" if "u \<noteq> 0" for u using that by (rule sequential_threads_facts(3))
  have c0: "code ?s 0 = []"
    using exited_main_done [OF r sequential_threads_facts(1,2) _ _ x] sequential_threads_facts(3,4)
    by fastforce
  with reach_program_order [OF r, of 0] have h: "history 0 ?s = ?P 0" by simp
  have p: "?P 0 = [] @ NowStart # ?mid @ NowStop # (report @ [Return 0])"
    by (simp add: sequential_threads_def run_sequential_def)
  have nm: "NowStart \<notin> set ?mid" "NowStop \<notin> set ?mid"
    using execute_stmts [where units = units] by blast+
  from h p have "NowStart \<in> set (history 0 ?s)" "NowStop \<in> set (history 0 ?s)" by simp_all
  with history_event [of _ 0 ?s] obtain a n where a: "a \<in> set (trace ?s)" "ev_stmt a = NowStart"
    and n: "n \<in> set (trace ?s)" "ev_stmt n = NowStop"
    by blast
  have gap: "ev_time a + sum_list (map nap (?mid @ [NowStop])) \<le> ev_time n"
  proof (rule run_gap [OF r p])
    show "NowStart \<notin> set []" "NowStart \<noteq> NowStop" by simp_all
    show "NowStart \<notin> set ?mid" "NowStop \<notin> set ?mid" by (rule nm)+
    show "NowStart \<notin> set (report @ [Return 0])" "NowStop \<notin> set (report @ [Return 0])"
      by (simp_all add: report_def)
    show "NowStop \<notin> set []" by simp
    show "NowStart \<notin> set (?P u) \<and> NowStop \<notin> set (?P u)" if "u \<noteq> 0" for u
      using other [OF that] by simp
  qed (rule a n)+
  have sa: "ev_time a = start ?s"
    using start_read_once [OF r, of 0 "[]" "?mid @ NowStop # (report @ [Return 0])"] p nm other a
    by (auto simp: report_def)
  have sn: "ev_time n = stop ?s"
    using stop_read_once [OF r, of 0 "NowStart # ?mid" "report @ [Return 0]"] p nm other n
    by (auto simp: report_def)
  from gap sa sn show lo: "start ?s + sum_list (map snd units) \<le> stop ?s"
    by (simp add: execute_naps nap_def)
  have "elapsed_bound ?s \<le> elapsed_bound (boot ?P) + overhead sch (boot ?P)"
  proof (rule elapsed_bound_run [OF reach_boot])
    show "NowStart \<notin> set (?P u) \<and> NowStop \<notin> set (?P u)" if "u \<noteq> 0" for u
      using other [OF that] by simp
  next
    fix s u
    assume "reach ?P s" "NowStop \<in> set (code s 0)" "\<forall>t\<in>set tids. \<not> runnable s t" "wake s u = None"
    then show "sum_list (map nap (code s u)) = 0" by (rule sequential_idle)
  qed
  moreover from c0 have "elapsed_bound ?s = stop ?s - start ?s" by (simp add: elapsed_bound_def)
  moreover have "elapsed_bound (boot ?P) = sum_list (map snd units)"
    using other [of coffee] other [of toast]
    by (simp add: elapsed_bound_def longest_def rest_nap_def p execute_naps nap_def report_def
        coffee_def toast_def)
  ultimately show "stop ?s \<le> start ?s + sum_list (map snd units) + overhead sch (boot ?P)"
    using lo by simp
qed

section \<open>The asynchronous programs\<close>

lemma concurrent_family:
  assumes "P = threads 2 \<or> P = threads 3 \<or> P = threads_02_async"
  shows "P = threads (if P = threads 2 then 2 else 3) \<or> P = threads_02_async"
  using assms by auto

text \<open>In the asynchronous programs \<^verbatim>\<open>stop\<close> is read after both futures have been waited
  for.\<close>

lemma get_before_stop:
  assumes r: "reach P s" and P: "P = threads 2 \<or> P = threads 3 \<or> P = threads_02_async"
    and g: "g \<in> set (trace s)" "ev_stmt g = Get u" and n: "n \<in> set (trace s)" "ev_stmt n = NowStop"
  shows "ev_time g \<le> ev_time n"
proof -
  from event_in_program [OF r g(1)] g(2) P have u: "u = coffee \<or> u = toast"
    by (auto simp: program_defs split: if_splits)
  have other: "Get u \<notin> set (P t) \<and> NowStop \<notin> set (P t)" if "t \<noteq> 0" for t
    using that P by (auto simp: program_defs split: if_splits)
  from P u consider
      (a) "P 0 = [Cout (format_banner 2), Cout endl, NowStart, Async coffee, Async toast] @ Get coffee # [Get toast] @ NowStop # (report @ [Return 0])" "u = coffee"
    | (b) "P 0 = [Cout (format_banner 2), Cout endl, NowStart, Async coffee, Async toast, Get coffee] @ Get toast # [] @ NowStop # (report @ [Return 0])" "u = toast"
    | (c) "P 0 = [Cout (format_banner 3), Cout endl, NowStart, Async coffee, Async toast] @ Get coffee # [Get toast] @ NowStop # (report @ [Return 0])" "u = coffee"
    | (d) "P 0 = [Cout (format_banner 3), Cout endl, NowStart, Async coffee, Async toast, Get coffee] @ Get toast # [] @ NowStop # (report @ [Return 0])" "u = toast"
    | (e) "P 0 = [NowStart, Async coffee, Async toast] @ Get coffee # [Get toast] @ NowStop # (report @ [Return 0])" "u = coffee"
    | (f) "P 0 = [NowStart, Async coffee, Async toast, Get coffee] @ Get toast # [] @ NowStop # (report @ [Return 0])" "u = toast"
    by (auto simp: program_defs)
  then have "\<exists>mid. ev_time g + sum_list (map nap (mid @ [NowStop])) \<le> ev_time n"
  proof cases
    case a
    have "ev_time g + sum_list (map nap ([Get toast] @ [NowStop])) \<le> ev_time n"
      by (rule run_gap [OF r a(1)]) (use a(2) g n other in \<open>auto simp: report_def coffee_def toast_def\<close>)
    then show ?thesis by blast
  next
    case b
    have "ev_time g + sum_list (map nap ([] @ [NowStop])) \<le> ev_time n"
      by (rule run_gap [OF r b(1)]) (use b(2) g n other in \<open>auto simp: report_def coffee_def toast_def\<close>)
    then show ?thesis by blast
  next
    case c
    have "ev_time g + sum_list (map nap ([Get toast] @ [NowStop])) \<le> ev_time n"
      by (rule run_gap [OF r c(1)]) (use c(2) g n other in \<open>auto simp: report_def coffee_def toast_def\<close>)
    then show ?thesis by blast
  next
    case d
    have "ev_time g + sum_list (map nap ([] @ [NowStop])) \<le> ev_time n"
      by (rule run_gap [OF r d(1)]) (use d(2) g n other in \<open>auto simp: report_def coffee_def toast_def\<close>)
    then show ?thesis by blast
  next
    case e
    have "ev_time g + sum_list (map nap ([Get toast] @ [NowStop])) \<le> ev_time n"
      by (rule run_gap [OF r e(1)]) (use e(2) g n other in \<open>auto simp: report_def coffee_def toast_def\<close>)
    then show ?thesis by blast
  next
    case f
    have "ev_time g + sum_list (map nap ([] @ [NowStop])) \<le> ev_time n"
      by (rule run_gap [OF r f(1)]) (use f(2) g n other in \<open>auto simp: report_def coffee_def toast_def\<close>)
    then show ?thesis by blast
  qed
  then show ?thesis by auto
qed

text \<open>What a worker has done lies between the two readings of the clock.\<close>

lemma worker_in_window:
  assumes r: "reach P s" and P: "P = threads 2 \<or> P = threads 3 \<or> P = threads_02_async"
    and x: "exit_code s = Some v" and e: "e \<in> set (trace s)" "ev_tid e \<noteq> 0"
  shows "start s \<le> ev_time e" and "ev_time e \<le> stop s"
proof -
  note F = concurrent_family [OF P]
  from worker_after_start [OF r F] e show "start s \<le> ev_time e" by simp
  from events_tid_family [OF r F e(1)] e(2) have u: "ev_tid e = coffee \<or> ev_tid e = toast" by simp
  with P have "Get (ev_tid e) \<in> set (P 0)" "NowStop \<in> set (P 0)" by (auto simp: program_defs)
  with exited_events [OF r F x] obtain g n where g: "g \<in> set (trace s)" "ev_stmt g = Get (ev_tid e)"
    and n: "n \<in> set (trace s)" "ev_stmt n = NowStop" by blast
  from e(1) have "e \<in> set (thread_events (ev_tid e) s)" by (simp add: thread_events_def)
  with join_time [OF r] g have "ev_time e \<le> ev_time g" by blast
  with get_before_stop [OF r P g n] stop_is [OF r F n] show "ev_time e \<le> stop s" by simp
qed

lemma worker_of_message:
  assumes r: "reach P s" and P: "P = threads 2 \<or> P = threads 3 \<or> P = threads_02_async"
    and e: "e \<in> set (trace s)"
  shows "ev_stmt e = Cout ''Created coffee!'' \<Longrightarrow> ev_tid e = coffee"
    and "ev_stmt e = Cout ''Created toast!'' \<Longrightarrow> ev_tid e = toast"
    and "ev_stmt e = Cout ''Creating coffee...'' \<Longrightarrow> ev_tid e = coffee"
    and "ev_stmt e = Cout ''Creating toast...'' \<Longrightarrow> ev_tid e = toast"
  using event_in_program [OF r e] P
  by (auto simp: program_defs split: if_splits)

lemma toast_finish_time:
  assumes r: "reach P s" and P: "P = threads 2 \<or> P = threads 3 \<or> P = threads_02_async"
    and x: "exit_code s = Some v" and e: "e \<in> set (trace s)" "ev_stmt e = Cout ''Created toast!''"
  shows "start s + 3000 \<le> ev_time e" and "ev_time e \<le> stop s"
proof -
  note F = concurrent_family [OF P]
  from P have "Cout ''Creating toast...'' \<in> set (P toast)" by (auto simp: program_defs)
  from exited_events [OF r F x this] obtain b where b: "b \<in> set (trace s)"
    "ev_stmt b = Cout ''Creating toast...''" "ev_tid b = toast" by blast
  from worker_in_window(1) [OF r P x b(1)] b(3) have "start s \<le> ev_time b" by (simp add: toast_def)
  with toast_sleeps [OF r F b(1,2) e] show "start s + 3000 \<le> ev_time e" by simp
  from worker_of_message(2) [OF r P e] have "ev_tid e \<noteq> 0" by (simp add: toast_def)
  from worker_in_window(2) [OF r P x e(1) this] show "ev_time e \<le> stop s" .
qed

lemma finish_bound_boot:
  assumes "P = threads 2 \<or> P = threads 3 \<or> P = threads_02_async"
  shows "finish_bound coffee c (boot P) = 2000"
  using assms by (auto simp: finish_bound_def rest_nap_def nap_def program_defs)

lemma coffee_finish_time:
  assumes P: "P = threads 2 \<or> P = threads 3 \<or> P = threads_02_async"
    and x: "exit_code (exec sch (boot P)) = Some v"
    and e: "e \<in> set (trace (exec sch (boot P)))" "ev_stmt e = Cout ''Created coffee!''"
  shows "start (exec sch (boot P)) + 2000 \<le> ev_time e"
    and "ev_time e \<le> start (exec sch (boot P)) + 2000 + overhead sch (boot P)"
    and "ev_time e \<le> stop (exec sch (boot P))"
proof -
  let ?s = "exec sch (boot P)"
  let ?c = "Cout ''Created coffee!''"
  have r: "reach P ?s" by (rule reach_exec)
  note F = concurrent_family [OF P]
  from P have "Cout ''Creating coffee...'' \<in> set (P coffee)" by (auto simp: program_defs)
  from exited_events [OF r F x this] obtain b where b: "b \<in> set (trace ?s)"
    "ev_stmt b = Cout ''Creating coffee...''" "ev_tid b = coffee" by blast
  from worker_in_window(1) [OF r P x b(1)] b(3) have "start ?s \<le> ev_time b" by (simp add: coffee_def)
  with coffee_sleeps [OF r F b(1,2) e] show lo: "start ?s + 2000 \<le> ev_time e" by simp
  from worker_of_message(1) [OF r P e] have "ev_tid e \<noteq> 0" by (simp add: coffee_def)
  from worker_in_window(2) [OF r P x e(1) this] show "ev_time e \<le> stop ?s" .
  have only: "?c \<notin> set (P t)" if "t \<noteq> coffee" for t
    using that P by (auto simp: program_defs split: if_splits)
  have "finish_bound coffee ?c ?s \<le> finish_bound coffee ?c (boot P) + overhead sch (boot P)"
    by (rule finish_bound_exec [OF reach_boot F _ only]) simp_all
  moreover have "finish_bound coffee ?c ?s = stamp ?c ?s - start ?s"
    using exited_done [OF r F x, of 0] exited_done [OF r F x, of coffee]
    by (simp add: finish_bound_def)
  moreover have "stamp ?c ?s = ev_time e"
    by (rule stamp_unique [OF r F _ e]) (use P in \<open>auto simp: program_defs\<close>)
  ultimately show "ev_time e \<le> start ?s + 2000 + overhead sch (boot P)"
    using finish_bound_boot [OF P, of ?c] by simp
qed

lemma finish_before_report:
  assumes r: "reach P s" and P: "P = threads 2 \<or> P = threads 3 \<or> P = threads_02_async"
  shows "precedes (\<lambda>c. c = Cout ''Created coffee!'') (\<lambda>c. c = Cout ''Total time = '') (executed s)"
    and "precedes (\<lambda>c. c = Cout ''Created toast!'') (\<lambda>c. c = Cout ''Total time = '') (executed s)"
proof -
  have 1: "precedes (\<lambda>c. c = Get u) (\<lambda>c. c = Cout ''Total time = '') (P t)" if "u = coffee \<or> u = toast" for t u
    using P that by (auto simp: program_defs precedes_Cons)
  have "Cout ''Created coffee!'' \<in> set (P coffee)" "Cout ''Created toast!'' \<in> set (P toast)"
    using P by (auto simp: program_defs)
  from join_precedes [OF r this(1)] join_precedes [OF r this(2)]
    program_precedes [OF r 1, of coffee] program_precedes [OF r 1, of toast]
  show "precedes (\<lambda>c. c = Cout ''Created coffee!'') (\<lambda>c. c = Cout ''Total time = '') (executed s)"
    and "precedes (\<lambda>c. c = Cout ''Created toast!'') (\<lambda>c. c = Cout ''Total time = '') (executed s)"
    by (blast intro: precedes_trans)+
qed

lemma coffee_before_toast:
  assumes P: "P = threads 2 \<or> P = threads 3 \<or> P = threads_02_async"
    and x: "exit_code (exec sch (boot P)) = Some v"
    and o: "overhead sch (boot P) < 1000"
  shows "precedes (\<lambda>c. c = Cout ''Created coffee!'') (\<lambda>c. c = Cout ''Created toast!'') (executed (exec sch (boot P)))"
proof -
  let ?s = "exec sch (boot P)"
  have r: "reach P ?s" by (rule reach_exec)
  note F = concurrent_family [OF P]
  from P have "Cout ''Created coffee!'' \<in> set (P coffee)" by (auto simp: program_defs)
  from exited_events [OF r F x this] obtain a where a: "a \<in> set (trace ?s)"
    "ev_stmt a = Cout ''Created coffee!''" by blast
  have "\<forall>b\<in>set (trace ?s). ev_stmt b = Cout ''Created toast!'' \<longrightarrow> ev_time a < ev_time b"
    using coffee_finish_time(2) [OF P x a] toast_finish_time(1) [OF r P x] o by fastforce
  with sorted_times [OF r] a show ?thesis
    unfolding executed_def by (intro earlier_precedes [where a = a]) simp_all
qed

text \<open>Once both futures have been waited for, only \<^verbatim>\<open>main\<close> runs: what is executed from
  then on is the rest of \<^verbatim>\<open>Run\<close> and the \<^verbatim>\<open>return\<close>, with nothing in between.\<close>

lemma report_at_end:
  assumes "reach P s" and P: "P = threads 2 \<or> P = threads 3 \<or> P = threads_02_async"
  shows "Get toast \<in> set (executed s) \<longrightarrow>
           (\<exists>xs k. executed s = xs @ take k ([NowStop] @ report @ [Return 0]) \<and>
                   code s 0 = drop k ([NowStop] @ report @ [Return 0]))"
  using assms(1)
proof (induction rule: reach_induct)
  case boot
  then show ?case by (simp add: executed_def)
next
  case (step s t s')
  let ?T = "[NowStop] @ report @ [Return 0]"
  note r = step.hyps(1)
  note F = concurrent_family [OF P]
  from step_shape [OF step.hyps(2)] obtain c rest where c: "code s t = c # rest" by blast
  from step_shape [OF step.hyps(2)] c
  consider (sleep) "trace s' = trace s" "code s' = code s"
    | (emit) "executed s' = executed s @ [c]" "code s' = (code s)(t := rest)"
    by (auto simp: executed_def)
  then show ?case
  proof cases
    case sleep
    with step.IH show ?thesis by (simp add: executed_def)
  next
    case emit
    show ?thesis
    proof
      assume g': "Get toast \<in> set (executed s')"
      show "\<exists>xs k. executed s' = xs @ take k ?T \<and> code s' 0 = drop k ?T"
      proof (cases "Get toast \<in> set (executed s)")
        case True
        with step.IH obtain xs k where k: "executed s = xs @ take k ?T" "code s 0 = drop k ?T"
          by blast
        have pr: "precedes (\<lambda>c. c = Get coffee) (\<lambda>c. c = Get toast) (P u)" for u
          using P by (auto simp: program_defs precedes_Cons)
        from precedes_member [OF program_precedes [OF r pr] True]
        have "Get coffee \<in> set (executed s)" by simp
        with True joined [OF r] have "code s coffee = []" "code s toast = []" by simp_all
        moreover have "code s u = []" if "u \<noteq> 0" "u \<noteq> coffee" "u \<noteq> toast" for u
        proof -
          from that P have "P u = []" by (auto simp: program_defs)
          with reach_program_order [OF r, of u] show ?thesis by simp
        qed
        ultimately have t0: "t = 0" using c by (metis list.distinct(1))
        with c k(2) have d: "drop k ?T = c # rest" by simp
        then have "k < length ?T" by (metis drop_all list.distinct(1) not_le)
        with d have "take (Suc k) ?T = take k ?T @ [c]" "drop (Suc k) ?T = rest"
          by (metis Cons_nth_drop_Suc list.inject take_Suc_conv_app_nth,
              metis Cons_nth_drop_Suc list.inject)
        with emit k(1) t0 have "executed s' = xs @ take (Suc k) ?T \<and> code s' 0 = drop (Suc k) ?T"
          by simp
        then show ?thesis by blast
      next
        case False
        with g' emit have cg: "c = Get toast" by auto
        with head_in_program [OF r c] P have t0: "t = 0" by (auto simp: program_defs split: if_splits)
        from P obtain pre where p: "P 0 = pre @ Get toast # ?T" "Get toast \<notin> set pre" "Get toast \<notin> set ?T"
          by (auto simp: program_defs)
        from reach_program_order [OF r, of 0] c t0 cg p(1)
        have "pre @ Get toast # ?T = history 0 s @ Get toast # rest" by simp
        with append_Cons_eq_iff [OF p(2,3), of "history 0 s" rest] have "rest = ?T" by simp
        with emit t0 have "executed s' = (executed s @ [Get toast]) @ take 0 ?T \<and> code s' 0 = drop 0 ?T"
          using cg by simp
        then show ?thesis by blast
      qed
    qed
  qed
next
  case (tick s n)
  then show ?case by (simp add: executed_def)
qed

lemma report_line:
  assumes r: "reach P s" and P: "P = threads 2 \<or> P = threads 3 \<or> P = threads_02_async"
    and x: "exit_code s = Some v"
  shows "\<exists>xs. executed s = xs @ [NowStop, Cout ''Total time = '', CoutCount, Cout '' seconds'', Cout endl, Return 0]
           \<and> console s = concat (map (stmt_text s) xs) @ ''Total time = '' @ count_text s @ '' seconds'' @ endl"
proof -
  note F = concurrent_family [OF P]
  let ?T = "[NowStop] @ report @ [Return 0]"
  from P have "Get toast \<in> set (P 0)" by (auto simp: program_defs)
  from exited_events [OF r F x this] have "Get toast \<in> set (executed s)"
    by (force simp: executed_def)
  with report_at_end [OF r P] obtain xs k where k: "executed s = xs @ take k ?T" "code s 0 = drop k ?T"
    by blast
  from exited_done [OF r F x, of 0] k(2) have "length ?T \<le> k" by simp
  with k(1) have e: "executed s = xs @ ?T" by simp
  then have "executed s = xs @ [NowStop, Cout ''Total time = '', CoutCount, Cout '' seconds'', Cout endl, Return 0]"
    by (simp add: report_def)
  moreover from e have "console s = concat (map (stmt_text s) xs) @ ''Total time = '' @ count_text s @ '' seconds'' @ endl"
    unfolding console_family [OF r F] by (simp add: report_def stmt_text_def)
  ultimately show ?thesis by blast
qed

lemma sequential_fixed:
  assumes x: "exit_code (main_with 1 sch) = Some 0"
  shows "executed (main_with 1 sch) =
           [Cout ''Running program , 1...'', Cout endl, NowStart,
            Cout ''Creating coffee...'', Cout endl, SleepFor 2000, Cout ''Created coffee!'', Cout endl,
            Cout ''Creating toast...'', Cout endl, SleepFor 3000, Cout ''Created toast!'', Cout endl,
            NowStop, Cout ''Total time = '', CoutCount, Cout '' seconds'', Cout endl, Return 0] \<and>
         console (main_with 1 sch) =
           ''Running program , 1...'' @ endl @
           ''Creating coffee...'' @ endl @ ''Created coffee!'' @ endl @
           ''Creating toast...'' @ endl @ ''Created toast!'' @ endl @
           ''Total time = '' @ show_nat ((stop (main_with 1 sch) - start (main_with 1 sch)) div 1000)
              @ '' seconds'' @ endl \<and>
         start (main_with 1 sch) + 5000 \<le> stop (main_with 1 sch) \<and>
         stop (main_with 1 sch) \<le> start (main_with 1 sch) + 5000 + overhead sch (boot (threads 1)) \<and>
         (overhead sch (boot (threads 1)) < 1000 \<longrightarrow>
            console (main_with 1 sch) =
              ''Running program , 1...'' @ endl @
              ''Creating coffee...'' @ endl @ ''Created coffee!'' @ endl @
              ''Creating toast...'' @ endl @ ''Created toast!'' @ endl @
              ''Total time = 5 seconds'' @ endl)"
proof -
  let ?s = "main_with 1 sch"
  note r = reach_main_with [of 1 sch]
  have P: "threads 1 = threads 1 \<or> threads 1 = threads_02_async" by simp
  note ex = sequential_executed [OF x]
  then have 1: "executed ?s =
           [Cout ''Running program , 1...'', Cout endl, NowStart,
            Cout ''Creating coffee...'', Cout endl, SleepFor 2000, Cout ''Created coffee!'', Cout endl,
            Cout ''Creating toast...'', Cout endl, SleepFor 3000, Cout ''Created toast!'', Cout endl,
            NowStop, Cout ''Total time = '', CoutCount, Cout '' seconds'', Cout endl, Return 0]"
    by (simp add: program_defs banner_text)
  have lo: "start ?s + 5000 \<le> stop ?s" using r x by (rule sequential_lower)
  have up: "stop ?s \<le> start ?s + 5000 + overhead sch (boot (threads 1))"
    using elapsed_upper [OF P, of sch 0] x lo by (simp add: main_with_def elapsed_bound_boot)
  have con: "console ?s =
           ''Running program , 1...'' @ endl @
           ''Creating coffee...'' @ endl @ ''Created coffee!'' @ endl @
           ''Creating toast...'' @ endl @ ''Created toast!'' @ endl @
           ''Total time = '' @ count_text ?s @ '' seconds'' @ endl"
    unfolding console_family [OF r P] 1 by (simp add: stmt_text_def)
  from lo have "start ?s \<le> stop ?s" by simp
  then have ct: "count_text ?s = show_nat ((stop ?s - start ?s) div 1000)"
    by (rule count_text_nat)
  have 5: "count_text ?s = ''5''" if "overhead sch (boot (threads 1)) < 1000"
    using count_text_seconds [of ?s 5] lo up that by (simp add: show_nat.simps digit_def)
  show ?thesis using 1 lo up con ct 5 by simp
qed


text \<open>A finished run of an asynchronous program has the outcome described by
  \<open>concurrent_outcome\<close>.\<close>

lemma concurrent_outcome_exited:
  assumes P: "P = threads 2 \<or> P = threads 3 \<or> P = threads_02_async"
    and x: "exit_code (exec sch (boot P)) = Some v"
  shows "concurrent_outcome (exec sch (boot P)) (overhead sch (boot P))"
proof -
  let ?s = "exec sch (boot P)"
  let ?ov = "overhead sch (boot P)"
  have r: "reach P ?s" by (rule reach_exec)
  note F = concurrent_family [OF P]
  from P have "Cout ''Created toast!'' \<in> set (P toast)" by (auto simp: program_defs)
  from exited_events [OF r F x this] obtain b where b: "b \<in> set (trace ?s)"
    "ev_stmt b = Cout ''Created toast!''" by blast
  from toast_finish_time [OF r P x b] have lo: "start ?s + 3000 \<le> stop ?s" by simp
  from P have eb: "elapsed_bound (boot P) = 3000" by (auto simp: elapsed_bound_boot)
  from elapsed_upper [OF F x] lo eb have up: "stop ?s \<le> start ?s + 3000 + ?ov" by simp
  note pr = finish_before_report [OF r P]
  from lo have "start ?s \<le> stop ?s" by simp
  then have ct: "count_text ?s = show_nat ((stop ?s - start ?s) div 1000)" by (rule count_text_nat)
  from report_line [OF r P x] ct
  have rl: "\<exists>xs. executed ?s = xs @ [NowStop, Cout ''Total time = '', CoutCount, Cout '' seconds'', Cout endl, Return 0] \<and>
            console ?s = concat (map (stmt_text ?s) xs) @
              ''Total time = '' @ show_nat ((stop ?s - start ?s) div 1000) @ '' seconds'' @ endl"
    by simp
  have small: "stop ?s - start ?s < 4000 \<and>
         precedes (\<lambda>c. c = Cout ''Created coffee!'') (\<lambda>c. c = Cout ''Created toast!'') (executed ?s) \<and>
         (\<exists>body. console ?s = body @ ''Total time = 3 seconds'' @ endl)" if o: "?ov < 1000"
  proof -
    from up o lo have lt: "stop ?s < start ?s + 4000" by simp
    with lo count_text_seconds [of ?s 3] have "count_text ?s = ''3''"
      by (simp add: show_nat.simps digit_def)
    with report_line [OF r P x] obtain xs where
      "console ?s = (concat (map (stmt_text ?s) xs)) @ ''Total time = 3 seconds'' @ endl"
      by auto
    then have "\<exists>body. console ?s = body @ ''Total time = 3 seconds'' @ endl" by blast
    with lt lo coffee_before_toast [OF P x o] show ?thesis by simp
  qed
  show ?thesis
    unfolding concurrent_outcome_def using lo up pr rl small by blast
qed


text \<open>The statements a finished run of the sequential scheduler has executed.\<close>

lemma sequential_units_executed:
  assumes x: "exit_code (exec sch (boot (sequential_threads units))) = Some v"
  shows "executed (exec sch (boot (sequential_threads units))) = run_sequential units @ [Return 0]"
proof -
  let ?P = "sequential_threads units"
  let ?s = "exec sch (boot ?P)"
  have r: "reach ?P ?s" by (rule reach_exec)
  have "executed ?s = history 0 ?s"
    using r sequential_threads_facts(7) by (rule single_thread)
  moreover have "code ?s 0 = []"
    by (rule exited_main_done [OF r sequential_threads_facts(1) sequential_threads_facts(2) _ _ x])
       (simp_all add: sequential_threads_facts(3) sequential_threads_facts(4))
  ultimately show ?thesis
    using reach_program_order [OF r, of 0] by (simp add: sequential_threads_def)
qed


section \<open>The runs without overhead\<close>

lemma ideal_03_run:
  "exit_code (main_with 3 ideal_03) = Some 0"
  "start (main_with 3 ideal_03) = 0"
  "stop (main_with 3 ideal_03) = 3000"
  "console (main_with 3 ideal_03) =
     ''Running program , 3...'' @ endl @ ''Creating coffee...'' @ endl @ ''Creating toast...'' @ endl @
     ''Created coffee!'' @ endl @ ''Created toast!'' @ endl @ ''Total time = 3 seconds'' @ endl"
  by (simp_all add: run_defs ideal_03_def console_def count_text_def duration_cast_seconds_def
      format_banner_def show_int_def show_nat.simps digit_def endl_def)



lemma ideal_01_run:
  "exit_code (main_with 1 ideal_01) = Some 0"
  "start (main_with 1 ideal_01) = 0"
  "stop (main_with 1 ideal_01) = 5000"
  "console (main_with 1 ideal_01) =
     ''Running program , 1...'' @ endl @ ''Creating coffee...'' @ endl @ ''Created coffee!'' @ endl @
     ''Creating toast...'' @ endl @ ''Created toast!'' @ endl @ ''Total time = 5 seconds'' @ endl"
  by (simp_all add: run_defs ideal_01_def console_def count_text_def duration_cast_seconds_def
      format_banner_def show_int_def show_nat.simps digit_def endl_def)

lemma ideal_01_overhead: "overhead ideal_01 (boot (threads 1)) = 0"
  by (simp add: run_defs ideal_01_def cost_def due_def runnable_def naps_def tids_def)



lemma ideal_tea_run:
  "exit_code (exec ideal_tea (boot (sequential_threads [(''tea'', 1000)]))) = Some 0"
  "start (exec ideal_tea (boot (sequential_threads [(''tea'', 1000)]))) = 0"
  "stop (exec ideal_tea (boot (sequential_threads [(''tea'', 1000)]))) = 1000"
  "console (exec ideal_tea (boot (sequential_threads [(''tea'', 1000)]))) =
     ''Creating tea...'' @ endl @ ''Created tea!'' @ endl @ ''Total time = 1 seconds'' @ endl"
  by (simp_all add: sequential_threads_def run_sequential_def execute_def report_def boot_def
      move_def step_def emit_def tick_def ideal_tea_def console_def count_text_def
      duration_cast_seconds_def show_int_def show_nat.simps digit_def endl_def)

lemma ideal_tea_overhead: "overhead ideal_tea (boot (sequential_threads [(''tea'', 1000)])) = 0"
  by (simp add: sequential_threads_def run_sequential_def execute_def report_def boot_def
      move_def step_def emit_def tick_def ideal_tea_def cost_def due_def runnable_def naps_def
      tids_def coffee_def toast_def)

text \<open>A run of the synchronized program in which the coffee thread, its sleep over at 2000 ms,
  is not scheduled before 3500 ms: the overhead is 1500 ms, and \<open>Created toast!\<close> is written
  before \<open>Created coffee!\<close>. No statement of the program orders the two finish messages; only
  the durations of the sleeps do, as long as the overhead stays below their difference.\<close>

lemma late_coffee_run:
  "exit_code (main_with 3 late_coffee) = Some 0"
  "overhead late_coffee (boot (threads 3)) = 1500"
  "stop (main_with 3 late_coffee) - start (main_with 3 late_coffee) = 3500"
  "console (main_with 3 late_coffee) =
     ''Running program , 3...'' @ endl @ ''Creating coffee...'' @ endl @ ''Creating toast...'' @ endl @
     ''Created toast!'' @ endl @ ''Created coffee!'' @ endl @ ''Total time = 3 seconds'' @ endl"
  by (simp_all add: run_defs late_coffee_def console_def count_text_def duration_cast_seconds_def
      format_banner_def show_int_def show_nat.simps digit_def endl_def
      cost_def due_def runnable_def naps_def tids_def)


text \<open>Runs with overhead: the finish messages in the other order, an elapsed time of
  5000 ms for the synchronized program, and one of 5999 ms for the sequential program.\<close>

lemma late_coffee_order:
  "\<not> precedes (\<lambda>c. c = Cout ''Created coffee!'') (\<lambda>c. c = Cout ''Created toast!'')
       (executed (main_with 3 late_coffee))"
  by (simp add: run_defs late_coffee_def executed_def precedes_def format_banner_def show_int_def
      show_nat.simps digit_def)

lemma late_toast_run:
  "exit_code (main_with 3 late_toast) = Some 0"
  "stop (main_with 3 late_toast) - start (main_with 3 late_toast) = 5000"
  "overhead late_toast (boot (threads 3)) = 2000"
  by (simp_all add: run_defs late_toast_def cost_def due_def runnable_def naps_def tids_def)

lemma slow_01_run:
  "exit_code (main_with 1 slow_01) = Some 0"
  "stop (main_with 1 slow_01) - start (main_with 1 slow_01) = 5999"
  "console (main_with 1 slow_01) =
     ''Running program , 1...'' @ endl @ ''Creating coffee...'' @ endl @ ''Created coffee!'' @ endl @
     ''Creating toast...'' @ endl @ ''Created toast!'' @ endl @ ''Total time = 5 seconds'' @ endl"
  by (simp_all add: run_defs slow_01_def console_def count_text_def duration_cast_seconds_def
      format_banner_def show_int_def show_nat.simps digit_def endl_def)

text \<open>Every finished run of a program that measures ends with the line of the total, which
  holds the numeral of the whole seconds between the two readings of the clock.\<close>

lemma total_line:
  assumes P: "P = threads 1 \<or> P = threads 2 \<or> P = threads 3 \<or> P = threads_02_async"
    and x: "exit_code (exec sch (boot P)) = Some v"
  shows "start (exec sch (boot P)) \<le> stop (exec sch (boot P)) \<and>
         (\<exists>xs. executed (exec sch (boot P)) =
                 xs @ [NowStop, Cout ''Total time = '', CoutCount, Cout '' seconds'', Cout endl, Return 0] \<and>
               console (exec sch (boot P)) = concat (map (stmt_text (exec sch (boot P))) xs) @
                 ''Total time = '' @
                 show_nat ((stop (exec sch (boot P)) - start (exec sch (boot P))) div 1000) @
                 '' seconds'' @ endl)"
proof (cases "P = threads 1")
  case True
  let ?s = "exec sch (boot P)"
  have r: "reach P ?s" by (rule reach_exec)
  from True have F: "P = threads 1 \<or> P = threads_02_async" by simp
  from sequential_lower [of ?s v] r x True have le: "start ?s \<le> stop ?s" by simp
  from sequential_executed [of sch v] x True have e: "executed ?s = main_body 1"
    by (simp add: main_with_def)
  let ?xs = "[Cout (format_banner 1), Cout endl, NowStart] @ CreateCoffee_01 @ CreateToast_01"
  from e have e': "executed ?s = ?xs @ [NowStop, Cout ''Total time = '', CoutCount, Cout '' seconds'', Cout endl, Return 0]"
    by (simp add: program_defs)
  have "console ?s = concat (map (stmt_text ?s) ?xs) @ ''Total time = '' @ count_text ?s @ '' seconds'' @ endl"
    unfolding console_family [OF r F] e' by (simp add: stmt_text_def)
  with count_text_nat [OF le] e' le show ?thesis by metis
next
  case False
  with P have C: "P = threads 2 \<or> P = threads 3 \<or> P = threads_02_async" by simp
  from concurrent_outcome_exited [OF C x] show ?thesis
    by (simp add: concurrent_outcome_def)
qed


section \<open>What a finished run has executed\<close>

lemma exited_history:
  assumes r: "reach P s" and P: "P = threads programId \<or> P = threads_02_async"
    and x: "exit_code s = Some v"
  shows "history t s = P t"
  using reach_program_order [OF r, of t] exited_done [OF r P x, of t] by simp

lemma never_locked:
  assumes r: "reach P s" and sc: "\<And>t. scoped False (P t)" and n: "\<And>t. LockGuard \<notin> set (P t)"
  shows "mutex s = None"
proof (rule ccontr)
  assume "mutex s \<noteq> None"
  then obtain t where "mutex s = Some t" by auto
  with mutex_owner [OF r sc, rule_format, of t] have "inside t s" by simp
  from inside_needs_lock [OF r this] n show False by simp
qed

lemma unlocked_programs:
  "mutex (main_with 1 sch) = None" "mutex (main_with 2 sch) = None"
  "mutex (main_02_async sch) = None"
proof -
  show "mutex (main_with 1 sch) = None"
    by (rule never_locked [OF reach_main_with scoped_threads]) (simp add: program_defs)
  show "mutex (main_with 2 sch) = None"
    by (rule never_locked [OF reach_main_with scoped_threads]) (simp add: program_defs)
  show "mutex (main_02_async sch) = None"
    by (rule never_locked [OF reach_main_02_async scoped_threads_02_async]) (simp add: program_defs)
qed

lemma histories_1:
  assumes x: "exit_code (main_with 1 sch) = Some v"
  shows "history 0 (main_with 1 sch) =
           [Cout ''Running program , 1...'', Cout endl, NowStart,
            Cout ''Creating coffee...'', Cout endl, SleepFor 2000, Cout ''Created coffee!'', Cout endl,
            Cout ''Creating toast...'', Cout endl, SleepFor 3000, Cout ''Created toast!'', Cout endl,
            NowStop, Cout ''Total time = '', CoutCount, Cout '' seconds'', Cout endl, Return 0]"
    and "history coffee (main_with 1 sch) = []" and "history toast (main_with 1 sch) = []"
  using exited_history [OF reach_main_with _ x, of 1]
  by (simp_all add: program_defs banner_text)

lemma histories_2:
  assumes x: "exit_code (main_with 2 sch) = Some v"
  shows "history 0 (main_with 2 sch) =
           [Cout ''Running program , 2...'', Cout endl, NowStart,
            Async coffee, Async toast, Get coffee, Get toast,
            NowStop, Cout ''Total time = '', CoutCount, Cout '' seconds'', Cout endl, Return 0]"
    and "history coffee (main_with 2 sch) =
           [Cout ''Creating coffee...'', Cout endl, SleepFor 2000, Cout ''Created coffee!'', Cout endl]"
    and "history toast (main_with 2 sch) =
           [Cout ''Creating toast...'', Cout endl, SleepFor 3000, Cout ''Created toast!'', Cout endl]"
  using exited_history [OF reach_main_with _ x, of 2]
  by (simp_all add: program_defs banner_text)

lemma histories_3:
  assumes x: "exit_code (main_with 3 sch) = Some v"
  shows "history 0 (main_with 3 sch) =
           [Cout ''Running program , 3...'', Cout endl, NowStart,
            Async coffee, Async toast, Get coffee, Get toast,
            NowStop, Cout ''Total time = '', CoutCount, Cout '' seconds'', Cout endl, Return 0]"
    and "history coffee (main_with 3 sch) =
           [LockGuard, Cout ''Creating coffee...'', Cout endl, Release,
            SleepFor 2000, Cout ''Created coffee!'', Cout endl]"
    and "history toast (main_with 3 sch) =
           [LockGuard, Cout ''Creating toast...'', Cout endl, Release,
            SleepFor 3000, Cout ''Created toast!'', Cout endl]"
  using exited_history [OF reach_main_with _ x, of 3]
  by (simp_all add: program_defs banner_text)


lemma ideal_02_run:
  "exit_code (main_with 2 ideal_02) = Some 0"
  "start (main_with 2 ideal_02) = 0"
  "stop (main_with 2 ideal_02) = 3000"
  "console (main_with 2 ideal_02) =
     ''Running program , 2...'' @ endl @ ''Creating coffee...'' @ endl @ ''Creating toast...'' @ endl @
     ''Created coffee!'' @ endl @ ''Created toast!'' @ endl @ ''Total time = 3 seconds'' @ endl"
  by (simp_all add: run_defs ideal_02_def console_def count_text_def duration_cast_seconds_def
      format_banner_def show_int_def show_nat.simps digit_def endl_def)



section \<open>Deferred execution\<close>

lemma deferred_main:
  assumes P: "P = threads 2 \<or> P = threads 3 \<or> P = threads_02_async"
  shows "deferred fails P 0 =
           (if P = threads_02_async then [] else takeWhile (\<lambda>c. c \<noteq> NowStart) (P 0)) @ [NowStart] @
           (if fails coffee then [] else [Async coffee]) @
           (if fails toast then [] else [Async toast]) @
           (if fails coffee then P coffee else [Get coffee]) @
           (if fails toast then P toast else [Get toast]) @
           [NowStop] @ report @ [Return 0]"
  using P by (auto simp: deferred_def program_defs)

lemma deferred_workers:
  assumes P: "P = threads 2 \<or> P = threads 3 \<or> P = threads_02_async"
  shows "deferred fails P coffee = (if fails coffee then [] else P coffee)"
    "deferred fails P toast = (if fails toast then [] else P toast)"
    "u \<noteq> 0 \<Longrightarrow> u \<noteq> coffee \<Longrightarrow> u \<noteq> toast \<Longrightarrow> deferred fails P u = []"
  using P by (auto simp: deferred_def program_defs)

lemma deferred_none:
  assumes P: "P = threads 2 \<or> P = threads 3 \<or> P = threads_02_async"
    and n: "\<not> fails coffee" "\<not> fails toast"
  shows "deferred fails P = P"
proof
  fix t
  show "deferred fails P t = P t"
    using P n by (auto simp: deferred_def program_defs)
qed

lemma history_executed: "set (history t s) \<subseteq> set (executed s)"
  by (auto simp: history_def thread_events_def executed_def)

lemma deferred_returns:
  assumes P: "P = threads 2 \<or> P = threads 3 \<or> P = threads_02_async"
  shows "\<exists>body. deferred fails P 0 = body @ [Return 0] \<and> Return 0 \<notin> set body"
    and "u \<noteq> 0 \<Longrightarrow> Return w \<notin> set (deferred fails P u)"
    and "Return w \<in> set (deferred fails P 0) \<Longrightarrow> w = 0"
proof -
  show "\<exists>body. deferred fails P 0 = body @ [Return 0] \<and> Return 0 \<notin> set body"
    using P by (auto simp: deferred_def program_defs)
  show "u \<noteq> 0 \<Longrightarrow> Return w \<notin> set (deferred fails P u)"
    using P by (auto simp: deferred_def program_defs split: if_splits)
  show "Return w \<in> set (deferred fails P 0) \<Longrightarrow> w = 0"
    using P by (auto simp: deferred_def program_defs split: if_splits)
qed

lemma deferred_exited:
  assumes P: "P = threads 2 \<or> P = threads 3 \<or> P = threads_02_async"
    and r: "reach (deferred fails P) s" and x: "exit_code s = Some v"
  shows "v = 0" and "history 0 s = deferred fails P 0"
proof -
  from deferred_returns(1) [OF P] obtain body where b: "deferred fails P 0 = body @ [Return 0]"
    "Return 0 \<notin> set body" by blast
  have c: "code s 0 = []"
    by (rule exited_main_done [OF r b _ _ x]) (use deferred_returns(2,3) [OF P] in blast)+
  with reach_program_order [OF r, of 0] show "history 0 s = deferred fails P 0" by simp
  from exit_inv [OF r] x have "Return v \<in> set (executed s)" by auto
  then obtain e where e: "e \<in> set (trace s)" "ev_stmt e = Return v" by (auto simp: executed_def)
  from event_in_program [OF r e(1)] e(2) have i: "Return v \<in> set (deferred fails P (ev_tid e))" by simp
  with deferred_returns(2) [OF P, of "ev_tid e" v] have "ev_tid e = 0" by blast
  with i deferred_returns(3) [OF P] show "v = 0" by simp
qed

lemma deferred_units_done:
  assumes P: "P = threads 2 \<or> P = threads 3 \<or> P = threads_02_async"
    and r: "reach (deferred fails P) s" and x: "exit_code s = Some v"
  shows "set (P coffee) \<subseteq> set (executed s)" and "set (P toast) \<subseteq> set (executed s)"
    and "set ([NowStart, NowStop] @ report @ [Return 0]) \<subseteq> set (executed s)"
proof -
  note h = deferred_exited(2) [OF P r x]
  note m = deferred_main [OF P, of fails]
  have sub: "set (deferred fails P 0) \<subseteq> set (executed s)"
    using history_executed [of 0 s] h by simp
  show "set ([NowStart, NowStop] @ report @ [Return 0]) \<subseteq> set (executed s)"
    using sub unfolding m by auto
  have unit: "set (P u) \<subseteq> set (executed s)" if u: "u = coffee \<or> u = toast" for u
  proof (cases "fails u")
    case True
    with u have "set (P u) \<subseteq> set (deferred fails P 0)" unfolding m by auto
    with sub show ?thesis by simp
  next
    case False
    with u have "Get u \<in> set (deferred fails P 0)" unfolding m by auto
    with sub have "Get u \<in> set (executed s)" by blast
    with joined [OF r] have "code s u = []" by blast
    with reach_program_order [OF r, of u] have "history u s = deferred fails P u" by simp
    also from u False deferred_workers(1,2) [OF P, of fails] have "\<dots> = P u" by auto
    finally show ?thesis using history_executed [of u s] by simp
  qed
  from unit [of coffee] show "set (P coffee) \<subseteq> set (executed s)" by simp
  from unit [of toast] show "set (P toast) \<subseteq> set (executed s)" by simp
qed

lemma deferred_not_launched:
  assumes P: "P = threads 2 \<or> P = threads 3 \<or> P = threads_02_async"
    and r: "reach (deferred fails P) s" and f: "fails u" and u: "u \<noteq> 0"
  shows "\<not> launched s u" and "history u s = []"
proof -
  have "Async u \<notin> set (deferred fails P t)" for t
    using P f by (auto simp: deferred_def program_defs split: if_splits)
  from not_launched [OF r this u] show "\<not> launched s u" .
  from u f have "deferred fails P u = []" by (simp add: deferred_def)
  with reach_program_order [OF r, of u] show "history u s = []" by simp
qed

lemma patient_exits_2:
  "exit_code (exec patient (boot (deferred fails (threads 2)))) = Some 0"
proof (cases "fails coffee"; cases "fails toast")
  assume a: "fails coffee" "fails toast"
  then have b: "fails (Suc 0)" "fails 2" by (simp_all add: coffee_def toast_def)
  show ?thesis
    using a b by (simp add: run_defs deferred_def patient_def)
next
  assume a: "fails coffee" "\<not> fails toast"
  then have b: "fails (Suc 0)" "\<not> fails 2" by (simp_all add: coffee_def toast_def)
  show ?thesis
    using a b by (simp add: run_defs deferred_def patient_def)
next
  assume a: "\<not> fails coffee" "fails toast"
  then have b: "\<not> fails (Suc 0)" "fails 2" by (simp_all add: coffee_def toast_def)
  show ?thesis
    using a b by (simp add: run_defs deferred_def patient_def)
next
  assume a: "\<not> fails coffee" "\<not> fails toast"
  then have b: "\<not> fails (Suc 0)" "\<not> fails 2" by (simp_all add: coffee_def toast_def)
  show ?thesis
    using a b by (simp add: run_defs deferred_def patient_def)
qed

lemma patient_exits_3:
  "exit_code (exec patient (boot (deferred fails (threads 3)))) = Some 0"
proof (cases "fails coffee"; cases "fails toast")
  assume a: "fails coffee" "fails toast"
  then have b: "fails (Suc 0)" "fails 2" by (simp_all add: coffee_def toast_def)
  show ?thesis
    using a b by (simp add: run_defs deferred_def patient_def)
next
  assume a: "fails coffee" "\<not> fails toast"
  then have b: "fails (Suc 0)" "\<not> fails 2" by (simp_all add: coffee_def toast_def)
  show ?thesis
    using a b by (simp add: run_defs deferred_def patient_def)
next
  assume a: "\<not> fails coffee" "fails toast"
  then have b: "\<not> fails (Suc 0)" "fails 2" by (simp_all add: coffee_def toast_def)
  show ?thesis
    using a b by (simp add: run_defs deferred_def patient_def)
next
  assume a: "\<not> fails coffee" "\<not> fails toast"
  then have b: "\<not> fails (Suc 0)" "\<not> fails 2" by (simp_all add: coffee_def toast_def)
  show ?thesis
    using a b by (simp add: run_defs deferred_def patient_def)
qed

lemma patient_exits_02_async:
  "exit_code (exec patient (boot (deferred fails (threads_02_async)))) = Some 0"
proof (cases "fails coffee"; cases "fails toast")
  assume a: "fails coffee" "fails toast"
  then have b: "fails (Suc 0)" "fails 2" by (simp_all add: coffee_def toast_def)
  show ?thesis
    using a b by (simp add: run_defs deferred_def patient_def)
next
  assume a: "fails coffee" "\<not> fails toast"
  then have b: "fails (Suc 0)" "\<not> fails 2" by (simp_all add: coffee_def toast_def)
  show ?thesis
    using a b by (simp add: run_defs deferred_def patient_def)
next
  assume a: "\<not> fails coffee" "fails toast"
  then have b: "\<not> fails (Suc 0)" "fails 2" by (simp_all add: coffee_def toast_def)
  show ?thesis
    using a b by (simp add: run_defs deferred_def patient_def)
next
  assume a: "\<not> fails coffee" "\<not> fails toast"
  then have b: "\<not> fails (Suc 0)" "\<not> fails 2" by (simp_all add: coffee_def toast_def)
  show ?thesis
    using a b by (simp add: run_defs deferred_def patient_def)
qed

lemma patient_exits:
  assumes P: "P = threads 2 \<or> P = threads 3 \<or> P = threads_02_async"
  shows "exit_code (exec patient (boot (deferred fails P))) = Some 0"
  using P patient_exits_2 patient_exits_3 patient_exits_02_async by blast

lemma deferred_all_elapsed:
  assumes P: "P = threads 2 \<or> P = threads 3 \<or> P = threads_02_async"
    and f: "fails coffee" "fails toast"
    and r: "reach (deferred fails P) s" and x: "exit_code s = Some v"
  shows "start s + 5000 \<le> stop s"
proof -
  let ?pre = "if P = threads_02_async then [] else takeWhile (\<lambda>c. c \<noteq> NowStart) (P 0)"
  from deferred_main [OF P, of fails] f
  have m: "deferred fails P 0 = ?pre @ NowStart # (P coffee @ P toast) @ NowStop # (report @ [Return 0])"
    by simp
  have o: "u \<noteq> 0 \<Longrightarrow> NowStart \<notin> set (deferred fails P u) \<and> NowStop \<notin> set (deferred fails P u)" for u
    using P by (auto simp: deferred_def program_defs split: if_splits)
  from deferred_units_done(3) [OF P r x] obtain a n where an:
    "a \<in> set (trace s)" "ev_stmt a = NowStart" "n \<in> set (trace s)" "ev_stmt n = NowStop"
    by (auto simp: executed_def)
  have pre: "NowStart \<notin> set ?pre" "NowStop \<notin> set ?pre"
    using P by (auto simp: program_defs)
  have mid: "NowStart \<notin> set (P coffee @ P toast)" "NowStop \<notin> set (P coffee @ P toast)"
    "sum_list (map nap (P coffee @ P toast)) = 5000"
    using P by (auto simp: program_defs nap_def)
  have "ev_time a + sum_list (map nap ((P coffee @ P toast) @ [NowStop])) \<le> ev_time n"
    by (rule run_gap [OF r m _ _ _ _ _ _ _ _ an])
       (use pre mid o in \<open>auto simp: report_def\<close>)
  with mid(3) have g: "ev_time a + 5000 \<le> ev_time n" by (simp add: nap_def)
  have "\<forall>e\<in>set (trace s). ev_stmt e = NowStart \<longrightarrow> ev_time e = start s"
    by (rule start_read_once [OF r, where t = 0 and xs = ?pre
          and ys = "(P coffee @ P toast) @ NowStop # (report @ [Return 0])"])
       (use m pre mid o in \<open>auto simp: report_def\<close>)
  moreover have "\<forall>e\<in>set (trace s). ev_stmt e = NowStop \<longrightarrow> ev_time e = stop s"
    by (rule stop_read_once [OF r, where t = 0 and xs = "?pre @ NowStart # (P coffee @ P toast)"
          and ys = "report @ [Return 0]"])
       (use m pre mid o in \<open>auto simp: report_def\<close>)
  ultimately show ?thesis using an g by auto
qed

lemma deferred_run:
  "exit_code (exec patient (boot (deferred (\<lambda>t. True) (threads 3)))) = Some 0"
  "console (exec patient (boot (deferred (\<lambda>t. True) (threads 3)))) =
     ''Running program , 3...'' @ endl @ ''Creating coffee...'' @ endl @ ''Created coffee!'' @ endl @
     ''Creating toast...'' @ endl @ ''Created toast!'' @ endl @ ''Total time = 5 seconds'' @ endl"
  "executed (exec patient (boot (deferred (\<lambda>t. True) (threads 3)))) =
     [Cout ''Running program , 3...'', Cout endl, NowStart,
      LockGuard, Cout ''Creating coffee...'', Cout endl, Release,
      SleepFor 2000, Cout ''Created coffee!'', Cout endl,
      LockGuard, Cout ''Creating toast...'', Cout endl, Release,
      SleepFor 3000, Cout ''Created toast!'', Cout endl,
      NowStop, Cout ''Total time = '', CoutCount, Cout '' seconds'', Cout endl, Return 0]"
  "map ev_tid (trace (exec patient (boot (deferred (\<lambda>t. True) (threads 3))))) = [0, 0, 0, 0, 0, 0, 0, 0, 0, 0, 0, 0, 0, 0, 0, 0, 0, 0, 0, 0, 0, 0, 0]"
  "stop (exec patient (boot (deferred (\<lambda>t. True) (threads 3))))
     - start (exec patient (boot (deferred (\<lambda>t. True) (threads 3)))) = 5000"
  by (simp_all add: run_defs deferred_def patient_def console_def executed_def count_text_def
      duration_cast_seconds_def format_banner_def show_int_def show_nat.simps digit_def endl_def)


lemma deferred_console:
  assumes P: "P = threads 2 \<or> P = threads 3 \<or> P = threads_02_async"
    and r: "reach (deferred fails P) s"
  shows "console s = concat (map (stmt_text s) (executed s))"
proof -
  have rl: "report_last (deferred fails P 0)"
    using P by (auto simp: deferred_def program_defs)
  have o: "u \<noteq> 0 \<Longrightarrow> NowStart \<notin> set (deferred fails P u) \<and> NowStop \<notin> set (deferred fails P u)
      \<and> CoutCount \<notin> set (deferred fails P u)" for u
    using P by (auto simp: deferred_def program_defs split: if_splits)
  have "\<forall>e\<in>set (trace s). ev_stmt e = CoutCount \<longrightarrow> ev_out e = count_text s"
    by (rule count_out [OF r rl o])
  with r show ?thesis by (rule console_text)
qed

lemma written:
  assumes "console s = concat (map (stmt_text s) (executed s))" and "Cout x \<in> set (executed s)"
  shows "\<exists>pre post. console s = pre @ x @ post"
proof -
  from assms(2) obtain a b where "executed s = a @ Cout x # b" by (auto simp: in_set_conv_decomp)
  with assms(1) have "console s = concat (map (stmt_text s) a) @ x @ concat (map (stmt_text s) b)"
    by (simp add: stmt_text_def)
  then show ?thesis by blast
qed

lemma deferred_all_02_async:
  assumes "fails coffee" "fails toast"
  shows "deferred fails threads_02_async = sequential_threads [(''coffee'', 2000), (''toast'', 3000)]"
proof
  fix t
  show "deferred fails threads_02_async t = sequential_threads [(''coffee'', 2000), (''toast'', 3000)] t"
    using assms
    by (auto simp: deferred_def program_defs sequential_threads_def run_sequential_def execute_def)
qed

section \<open>The claims\<close>

text \<open>
  C9. The number in the line \<^verbatim>\<open>Total time = N seconds\<close> is the elapsed time converted to
  whole seconds by \<^verbatim>\<open>duration_cast\<close>, which truncates toward zero: for a non-negative
  elapsed time of \<open>d\<close> milliseconds it is \<open>d div 1000\<close>, the remainder below one second is
  dropped, and the text written by \<^verbatim>\<open>std::cout << duration.count()\<close> is the decimal numeral
  of \<open>(stop - start) div 1000\<close>. An elapsed time of 5999 ms is reported as 5.
\<close>

theorem count_truncates_toward_zero:
  "duration_cast_seconds d = sgn d * (\<bar>d\<bar> div 1000) \<and>
   (0 \<le> d \<longrightarrow> duration_cast_seconds d = d div 1000
        \<and> 1000 * duration_cast_seconds d \<le> d \<and> d < 1000 * duration_cast_seconds d + 1000) \<and>
   (start s \<le> stop s \<longrightarrow> count_text s = show_nat ((stop s - start s) div 1000)) \<and>
   ((P = threads 1 \<or> P = threads 2 \<or> P = threads 3 \<or> P = threads_02_async) \<and>
    exit_code (exec sch (boot P)) = Some 0 \<longrightarrow>
      (\<exists>a n. a \<in> set (trace (exec sch (boot P))) \<and> ev_stmt a = NowStart \<and>
             n \<in> set (trace (exec sch (boot P))) \<and> ev_stmt n = NowStop \<and>
             ev_time a \<le> ev_time n \<and>
             (\<exists>xs. executed (exec sch (boot P)) =
                     xs @ [NowStop, Cout ''Total time = '', CoutCount, Cout '' seconds'', Cout endl, Return 0] \<and>
                   console (exec sch (boot P)) = concat (map (stmt_text (exec sch (boot P))) xs) @
                     ''Total time = '' @ show_nat ((ev_time n - ev_time a) div 1000) @ '' seconds'' @ endl)))"
proof -
  have a: "duration_cast_seconds d = sgn d * (\<bar>d\<bar> div 1000)"
    by (auto simp: duration_cast_seconds_def sgn_if)
  have b: "duration_cast_seconds d = d div 1000
        \<and> 1000 * duration_cast_seconds d \<le> d \<and> d < 1000 * duration_cast_seconds d + 1000"
    if d: "0 \<le> d"
  proof -
    have e: "duration_cast_seconds d = d div 1000"
      using d by (simp add: duration_cast_seconds_def)
    have "1000 * (d div 1000) + d mod 1000 = d" by (rule mult_div_mod_eq)
    moreover have "0 \<le> d mod 1000" "d mod 1000 < 1000" by simp_all
    ultimately show ?thesis unfolding e by linarith
  qed
  have c: "count_text s = show_nat ((stop s - start s) div 1000)" if le: "start s \<le> stop s"
    using le by (rule count_text_nat)
  have r: "\<exists>a n. a \<in> set (trace (exec sch (boot P))) \<and> ev_stmt a = NowStart \<and>
             n \<in> set (trace (exec sch (boot P))) \<and> ev_stmt n = NowStop \<and>
             ev_time a \<le> ev_time n \<and>
             (\<exists>xs. executed (exec sch (boot P)) =
                     xs @ [NowStop, Cout ''Total time = '', CoutCount, Cout '' seconds'', Cout endl, Return 0] \<and>
                   console (exec sch (boot P)) = concat (map (stmt_text (exec sch (boot P))) xs) @
                     ''Total time = '' @ show_nat ((ev_time n - ev_time a) div 1000) @ '' seconds'' @ endl)"
    if P: "P = threads 1 \<or> P = threads 2 \<or> P = threads 3 \<or> P = threads_02_async"
      and x: "exit_code (exec sch (boot P)) = Some 0"
  proof -
    let ?s = "exec sch (boot P)"
    have re: "reach P ?s" by (rule reach_exec)
    from P obtain programId where F: "P = threads programId \<or> P = threads_02_async" by blast
    from P have "NowStart \<in> set (P 0)" "NowStop \<in> set (P 0)" by (auto simp: program_defs)
    from exited_events [OF re F x this(1)] exited_events [OF re F x this(2)]
    obtain a n where an: "a \<in> set (trace ?s)" "ev_stmt a = NowStart"
      "n \<in> set (trace ?s)" "ev_stmt n = NowStop" by blast
    from start_is [OF re F an(1,2)] stop_is [OF re F an(3,4)]
    have t: "ev_time a = start ?s" "ev_time n = stop ?s" .
    from total_line [OF P x] have "ev_time a \<le> ev_time n \<and>
        (\<exists>xs. executed ?s =
                     xs @ [NowStop, Cout ''Total time = '', CoutCount, Cout '' seconds'', Cout endl, Return 0] \<and>
                   console ?s = concat (map (stmt_text ?s) xs) @
                     ''Total time = '' @ show_nat ((ev_time n - ev_time a) div 1000) @ '' seconds'' @ endl)"
      unfolding t .
    with an show ?thesis by blast
  qed
  show ?thesis using a b c r by blast
qed

theorem count_truncates_witness:
  "duration_cast_seconds 5999 = 5 \<and>
   1000 * duration_cast_seconds 5999 \<le> 5999 \<and>
   duration_cast_seconds (- 5999) = - 5 \<and>
   exit_code (main_with 1 slow_01) = Some 0 \<and>
   stop (main_with 1 slow_01) - start (main_with 1 slow_01) = 5999 \<and>
   count_text (main_with 1 slow_01) = ''5'' \<and>
   console (main_with 1 slow_01) =
     ''Running program , 1...'' @ endl @ ''Creating coffee...'' @ endl @ ''Created coffee!'' @ endl @
     ''Creating toast...'' @ endl @ ''Created toast!'' @ endl @ ''Total time = 5 seconds'' @ endl \<and>
   (\<exists>a n. a \<in> set (trace (main_with 1 slow_01)) \<and> ev_stmt a = NowStart \<and>
          n \<in> set (trace (main_with 1 slow_01)) \<and> ev_stmt n = NowStop \<and>
          ev_time n - ev_time a = 5999)"
proof -
  note t = count_truncates_toward_zero [of 5999 "main_with 1 slow_01" "threads 1" slow_01]
  note u = count_truncates_toward_zero [of "- 5999" "main_with 1 slow_01" "threads 1" slow_01]
  have 1: "duration_cast_seconds 5999 = 5" "1000 * duration_cast_seconds 5999 \<le> 5999"
    using t by simp_all
  have 2: "duration_cast_seconds (- 5999) = - 5" using u by simp
  from slow_01_run(2) have le: "start (main_with 1 slow_01) \<le> stop (main_with 1 slow_01)" by simp
  with t slow_01_run(2) have 3: "count_text (main_with 1 slow_01) = ''5''"
    by (simp add: show_nat.simps digit_def)
  have r: "reach (threads 1) (main_with 1 slow_01)" by (rule reach_main_with)
  have F: "threads 1 = threads 1 \<or> threads 1 = threads_02_async" by simp
  from t slow_01_run(1) obtain a n where an: "a \<in> set (trace (main_with 1 slow_01))"
    "ev_stmt a = NowStart" "n \<in> set (trace (main_with 1 slow_01))" "ev_stmt n = NowStop"
    unfolding main_with_def by blast
  from start_is [OF r F an(1,2)] stop_is [OF r F an(3,4)] slow_01_run(2)
  have "ev_time n - ev_time a = 5999" by simp
  with an have 4: "\<exists>a n. a \<in> set (trace (main_with 1 slow_01)) \<and> ev_stmt a = NowStart \<and>
          n \<in> set (trace (main_with 1 slow_01)) \<and> ev_stmt n = NowStop \<and>
          ev_time n - ev_time a = 5999" by blast
  show ?thesis using 1 2 3 4 slow_01_run by blast
qed


text \<open>
  C6. The \<^verbatim>\<open>switch\<close> of \<^verbatim>\<open>main\<close> runs \<^verbatim>\<open>Program_01_async\<close> (sequential) for the
  identifier 1, \<^verbatim>\<open>Program_02_async\<close> (asynchronous, no mutex) for 2 and
  \<^verbatim>\<open>Program_03_async_cout_mutex\<close> (asynchronous, with the mutex) for 3. For every other
  identifier the switch does nothing: in every run the statements executed are an initial
  part of banner, \<^verbatim>\<open>endl\<close>, \<^verbatim>\<open>return 0\<close>; no thread is launched, the clock is never
  read (so no elapsed time is measured or reported), and the console holds at most the
  banner line.
\<close>

theorem mode_dispatch:
  "main_body 1 = [Cout (format_banner 1), Cout endl] @ Run_01 @ [Return 0] \<and>
   main_body 2 = [Cout (format_banner 2), Cout endl] @ Run_02 @ [Return 0] \<and>
   main_body 3 = [Cout (format_banner 3), Cout endl] @ Run_03 @ [Return 0] \<and>
   (programId \<notin> {1, 2, 3} \<longrightarrow>
      main_body programId = [Cout (format_banner programId), Cout endl, Return 0] \<and>
      executed (main_with programId sch) @ code (main_with programId sch) 0
        = [Cout (format_banner programId), Cout endl, Return 0] \<and>
      (\<forall>u. u \<noteq> 0 \<longrightarrow> \<not> launched (main_with programId sch) u) \<and>
      start (main_with programId sch) = 0 \<and> stop (main_with programId sch) = 0 \<and>
      (console (main_with programId sch) = [] \<or>
       console (main_with programId sch) = format_banner programId \<or>
       console (main_with programId sch) = format_banner programId @ endl)) \<and>
   (\<forall>u. u \<noteq> 0 \<longrightarrow> \<not> launched (main_with 1 sch) u) \<and>
   mutex (main_with 1 sch) = None \<and>
   mutex (main_with 2 sch) = None \<and>
   (exit_code (main_with 1 sch) = Some 0 \<longrightarrow>
      history 0 (main_with 1 sch) =
        [Cout ''Running program , 1...'', Cout endl, NowStart,
         Cout ''Creating coffee...'', Cout endl, SleepFor 2000, Cout ''Created coffee!'', Cout endl,
         Cout ''Creating toast...'', Cout endl, SleepFor 3000, Cout ''Created toast!'', Cout endl,
         NowStop, Cout ''Total time = '', CoutCount, Cout '' seconds'', Cout endl, Return 0] \<and>
      history coffee (main_with 1 sch) = [] \<and> history toast (main_with 1 sch) = []) \<and>
   (exit_code (main_with 2 sch) = Some 0 \<longrightarrow>
      history 0 (main_with 2 sch) =
        [Cout ''Running program , 2...'', Cout endl, NowStart,
         Async coffee, Async toast, Get coffee, Get toast,
         NowStop, Cout ''Total time = '', CoutCount, Cout '' seconds'', Cout endl, Return 0] \<and>
      history coffee (main_with 2 sch) =
        [Cout ''Creating coffee...'', Cout endl, SleepFor 2000, Cout ''Created coffee!'', Cout endl] \<and>
      history toast (main_with 2 sch) =
        [Cout ''Creating toast...'', Cout endl, SleepFor 3000, Cout ''Created toast!'', Cout endl]) \<and>
   (exit_code (main_with 3 sch) = Some 0 \<longrightarrow>
      history 0 (main_with 3 sch) =
        [Cout ''Running program , 3...'', Cout endl, NowStart,
         Async coffee, Async toast, Get coffee, Get toast,
         NowStop, Cout ''Total time = '', CoutCount, Cout '' seconds'', Cout endl, Return 0] \<and>
      history coffee (main_with 3 sch) =
        [LockGuard, Cout ''Creating coffee...'', Cout endl, Release,
         SleepFor 2000, Cout ''Created coffee!'', Cout endl] \<and>
      history toast (main_with 3 sch) =
        [LockGuard, Cout ''Creating toast...'', Cout endl, Release,
         SleepFor 3000, Cout ''Created toast!'', Cout endl]) \<and>
   (\<exists>sch1. exit_code (main_with 1 sch1) = Some 0) \<and>
   (\<exists>sch2. exit_code (main_with 2 sch2) = Some 0) \<and>
   (\<exists>sch3. exit_code (main_with 3 sch3) = Some 0)"
proof -
  have old: "main_body 1 = [Cout (format_banner 1), Cout endl] @ Run_01 @ [Return 0] \<and>
   main_body 2 = [Cout (format_banner 2), Cout endl] @ Run_02 @ [Return 0] \<and>
   main_body 3 = [Cout (format_banner 3), Cout endl] @ Run_03 @ [Return 0] \<and>
   (programId \<notin> {1, 2, 3} \<longrightarrow>
      main_body programId = [Cout (format_banner programId), Cout endl, Return 0] \<and>
      executed (main_with programId sch) @ code (main_with programId sch) 0
        = [Cout (format_banner programId), Cout endl, Return 0] \<and>
      (\<forall>u. u \<noteq> 0 \<longrightarrow> \<not> launched (main_with programId sch) u) \<and>
      start (main_with programId sch) = 0 \<and> stop (main_with programId sch) = 0 \<and>
      (console (main_with programId sch) = [] \<or>
       console (main_with programId sch) = format_banner programId \<or>
       console (main_with programId sch) = format_banner programId @ endl))"
    using unrecognized_run [where programId = programId and sch = sch] main_body_unrecognized [of programId]
    by (simp add: main_body_def switch_body_def)
  have l: "\<forall>u. u \<noteq> 0 \<longrightarrow> \<not> launched (main_with 1 sch) u"
    using not_launched [OF reach_main_with, of _ 1 sch] no_async_sequential by blast
  note m = unlocked_programs(1,2) [of sch]
  note h1 = histories_1 [of sch 0] and h2 = histories_2 [of sch 0] and h3 = histories_3 [of sch 0]
  note e = can_exit [of 1] can_exit [of 2] can_exit [of 3]
  show ?thesis
    using old l m h1 h2 h3 e by blast
qed

theorem mode_dispatch_witness:
  "main_body 3 = [Cout (format_banner 3), Cout endl] @ Run_03 @ [Return 0] \<and>
   executed (main_with 7 [Run 0, Run 0, Run 0]) = [Cout ''Running program , 7...'', Cout endl, Return 0] \<and>
   code (main_with 7 [Run 0, Run 0, Run 0]) 0 = [] \<and>
   console (main_with 7 [Run 0, Run 0, Run 0]) = ''Running program , 7...'' @ endl \<and>
   exit_code (main_with 7 [Run 0, Run 0, Run 0]) = Some 0 \<and>
   exit_code (main_with 1 ideal_01) = Some 0 \<and>
   history coffee (main_with 1 ideal_01) = [] \<and>
   exit_code (main_with 2 ideal_02) = Some 0 \<and>
   history coffee (main_with 2 ideal_02) =
     [Cout ''Creating coffee...'', Cout endl, SleepFor 2000, Cout ''Created coffee!'', Cout endl] \<and>
   exit_code (main_with 3 ideal_03) = Some 0 \<and>
   history coffee (main_with 3 ideal_03) =
     [LockGuard, Cout ''Creating coffee...'', Cout endl, Release,
      SleepFor 2000, Cout ''Created coffee!'', Cout endl]"
proof -
  have a: "executed (main_with 7 [Run 0, Run 0, Run 0]) = [Cout ''Running program , 7...'', Cout endl, Return 0]"
    "console (main_with 7 [Run 0, Run 0, Run 0]) = ''Running program , 7...'' @ endl"
    "exit_code (main_with 7 [Run 0, Run 0, Run 0]) = Some 0"
    by (simp_all add: run_defs executed_def console_def format_banner_def show_int_def show_nat.simps digit_def)
  then have b: "main_body 3 = [Cout (format_banner 3), Cout endl] @ Run_03 @ [Return 0] \<and>
      code (main_with 7 [Run 0, Run 0, Run 0]) 0 = []"
    using mode_dispatch [of 7 "[Run 0, Run 0, Run 0]"] by simp
  from mode_dispatch [of 7 ideal_01] ideal_01_run(1)
  have 1: "history coffee (main_with 1 ideal_01) = []" by blast
  from mode_dispatch [of 7 ideal_02] ideal_02_run(1)
  have 2: "history coffee (main_with 2 ideal_02) =
     [Cout ''Creating coffee...'', Cout endl, SleepFor 2000, Cout ''Created coffee!'', Cout endl]"
    by blast
  from mode_dispatch [of 7 ideal_03] ideal_03_run(1)
  have 3: "history coffee (main_with 3 ideal_03) =
     [LockGuard, Cout ''Creating coffee...'', Cout endl, Release,
      SleepFor 2000, Cout ''Created coffee!'', Cout endl]"
    by blast
  show ?thesis
    using a b 1 2 3 ideal_01_run(1) ideal_02_run(1) ideal_03_run(1) by blast
qed


text \<open>
  C10. \<^verbatim>\<open>main\<close> first writes the banner \<^verbatim>\<open>Running program , {programId}...\<close> and
  \<^verbatim>\<open>endl\<close>: in every run and for every identifier these are the first two statements
  executed, the console starts with them, nothing else is written before the banner, and
  once \<^verbatim>\<open>main\<close> has made two steps the banner line is on the console, also for an
  identifier the switch does not know.
\<close>

theorem banner_first:
  "(executed (main_with programId sch) = [] \<or>
    executed (main_with programId sch) = [Cout (format_banner programId)] \<or>
    (\<exists>rest. executed (main_with programId sch) = Cout (format_banner programId) # Cout endl # rest)) \<and>
   (console (main_with programId sch) = [] \<or>
    console (main_with programId sch) = format_banner programId \<or>
    (\<exists>rest. console (main_with programId sch) = format_banner programId @ endl @ rest)) \<and>
   precedes (\<lambda>c. c = Cout (format_banner programId)) (\<lambda>c. c \<noteq> Cout (format_banner programId))
     (executed (main_with programId sch)) \<and>
   (\<exists>rest. console (main_with programId (Run 0 # Run 0 # sch)) = format_banner programId @ endl @ rest) \<and>
   format_banner programId = ''Running program , '' @ show_int programId @ ''...''"
proof -
  let ?s = "main_with programId sch"
  let ?B = "Cout (format_banner programId)"
  have inv: "banner_inv programId ?s" by (rule banner_inv_main)
  then have 1: "executed ?s = [] \<or> executed ?s = [?B] \<or> (\<exists>rest. executed ?s = ?B # Cout endl # rest)"
    unfolding banner_inv_def executed_def by auto
  from inv have 2: "console ?s = [] \<or> console ?s = format_banner programId \<or>
    (\<exists>rest. console ?s = format_banner programId @ endl @ rest)"
    unfolding banner_inv_def console_def by auto
  from 1 have 3: "precedes (\<lambda>c. c = ?B) (\<lambda>c. c \<noteq> ?B) (executed ?s)"
    by (auto simp: precedes_Cons)
  let ?s2 = "exec [Run 0, Run 0] (boot (threads programId))"
  have t2: "\<exists>e1 e2. trace ?s2 = [e1, e2] \<and> ev_out e1 = format_banner programId \<and> ev_out e2 = endl"
    by (simp add: boot_def threads_def main_body_def move_def step_def emit_def)
  obtain ext where "trace (exec sch ?s2) = trace ?s2 @ ext"
    using trace_grows by blast
  with t2 have 4: "\<exists>rest. console (main_with programId (Run 0 # Run 0 # sch)) = format_banner programId @ endl @ rest"
    by (auto simp: console_def main_with_def)
  show ?thesis using 1 2 3 4 by (simp add: format_banner_def)
qed

theorem banner_first_witness:
  "console (main_with 3 ideal_03) =
     ''Running program , 3...'' @ endl @ ''Creating coffee...'' @ endl @ ''Creating toast...'' @ endl @
     ''Created coffee!'' @ endl @ ''Created toast!'' @ endl @ ''Total time = 3 seconds'' @ endl \<and>
   console (main_with 7 [Run 0, Run 0, Run 0]) = ''Running program , 7...'' @ endl \<and>
   precedes (\<lambda>c. c = Cout (format_banner 3)) (\<lambda>c. c \<noteq> Cout (format_banner 3))
     (executed (main_with 3 ideal_03))"
proof -
  have "console (main_with 3 ideal_03) =
     ''Running program , 3...'' @ endl @ ''Creating coffee...'' @ endl @ ''Creating toast...'' @ endl @
     ''Created coffee!'' @ endl @ ''Created toast!'' @ endl @ ''Total time = 3 seconds'' @ endl"
    by (simp add: run_defs ideal_03_def console_def count_text_def duration_cast_seconds_def
        format_banner_def show_int_def show_nat.simps digit_def endl_def)
  moreover have "console (main_with 7 [Run 0, Run 0, Run 0]) = ''Running program , 7...'' @ endl"
    by (simp add: run_defs console_def format_banner_def show_int_def show_nat.simps digit_def)
  ultimately show ?thesis
    using banner_first [of 3 ideal_03] by blast
qed

text \<open>
  C8. The exit code is 0: in every run of \<^verbatim>\<open>concurrency/main.cpp\<close>, for every identifier, and
  in every run of \<^verbatim>\<open>02_async/main.cpp\<close>, the process has either not exited yet or has exited
  with code 0; and each of them has a run that exits.
\<close>

theorem exit_code_always_zero:
  "(exit_code (main_with programId sch) = None \<or> exit_code (main_with programId sch) = Some 0) \<and>
   (exit_code (main_02_async sch) = None \<or> exit_code (main_02_async sch) = Some 0) \<and>
   (\<exists>sch'. exit_code (main_with programId sch') = Some 0) \<and>
   (\<exists>sch'. exit_code (main_02_async sch') = Some 0)"
  using exits_with_zero exits_with_zero_02_async can_exit can_exit_02_async by blast

theorem exit_code_witness:
  "exit_code (main_with 3 ideal_03) = Some 0 \<and> exit_code (main_with 7 [Run 0, Run 0, Run 0]) = Some 0 \<and>
   exit_code (main_with 3 [Run 0, Run 0, Run 0]) = None \<and>
   exit_code (main_02_async ideal_02_async) = Some 0"
proof -
  have "exit_code (main_with 7 [Run 0, Run 0, Run 0]) = Some 0"
    "exit_code (main_with 3 [Run 0, Run 0, Run 0]) = None"
    "exit_code (main_02_async ideal_02_async) = Some 0"
    by (simp_all add: run_defs ideal_02_def ideal_02_async_def)
  moreover have "exit_code (main_with 3 ideal_03) \<noteq> None"
    by (simp add: run_defs ideal_03_def)
  ultimately show ?thesis
    using exit_code_always_zero [of 3 ideal_03] by auto
qed


text \<open>
  C4. In the synchronized program each worker takes the mutex immediately before its start
  message and releases it before its sleep: its program is lock, start message,
  \<^verbatim>\<open>endl\<close>, release, sleep, finish message, \<^verbatim>\<open>endl\<close>, executed in this order. In every
  run, whenever the mutex is owned, the owner is one of the two workers and is inside its
  \<^verbatim>\<open>lock_guard\<close> block: its next statement is the start message, the \<^verbatim>\<open>endl\<close> after it, or
  the release. So the owner is never asleep and never at its sleep or at its finish message.
\<close>

theorem guard_only_around_start_message:
  "history coffee (main_with 3 sch) @ code (main_with 3 sch) coffee =
     [LockGuard, Cout ''Creating coffee...'', Cout endl, Release,
      SleepFor 2000, Cout ''Created coffee!'', Cout endl] \<and>
   history toast (main_with 3 sch) @ code (main_with 3 sch) toast =
     [LockGuard, Cout ''Creating toast...'', Cout endl, Release,
      SleepFor 3000, Cout ''Created toast!'', Cout endl] \<and>
   (mutex (main_with 3 sch) = Some t) = inside t (main_with 3 sch) \<and>
   (mutex (main_with 3 sch) = Some t \<longrightarrow>
      (t = coffee \<or> t = toast) \<and>
      (code (main_with 3 sch) t = drop 1 (threads 3 t) \<or>
       code (main_with 3 sch) t = drop 2 (threads 3 t) \<or>
       code (main_with 3 sch) t = drop 3 (threads 3 t)) \<and>
      wake (main_with 3 sch) t = None \<and>
      (\<forall>d rest. code (main_with 3 sch) t \<noteq> SleepFor d # rest) \<and>
      (\<forall>rest. code (main_with 3 sch) t \<noteq> Cout ''Created coffee!'' # rest) \<and>
      (\<forall>rest. code (main_with 3 sch) t \<noteq> Cout ''Created toast!'' # rest) \<and>
      code (main_with 3 sch) t \<noteq> [Cout endl])"
proof -
  let ?s = "main_with 3 sch"
  note r = reach_main_with [of 3 sch]
  have 1: "history coffee ?s @ code ?s coffee =
     [LockGuard, Cout ''Creating coffee...'', Cout endl, Release,
      SleepFor 2000, Cout ''Created coffee!'', Cout endl]"
    using reach_program_order [OF r, of coffee] by (simp add: program_defs)
  have 2: "history toast ?s @ code ?s toast =
     [LockGuard, Cout ''Creating toast...'', Cout endl, Release,
      SleepFor 3000, Cout ''Created toast!'', Cout endl]"
    using reach_program_order [OF r, of toast] by (simp add: program_defs)
  have 3: "(mutex ?s = Some t) = inside t ?s"
    using mutex_owner [OF r scoped_threads] by simp
  have 4: "(t = coffee \<or> t = toast) \<and>
      (code ?s t = drop 1 (threads 3 t) \<or> code ?s t = drop 2 (threads 3 t) \<or>
       code ?s t = drop 3 (threads 3 t)) \<and>
      wake ?s t = None \<and>
      (\<forall>d rest. code ?s t \<noteq> SleepFor d # rest) \<and>
      (\<forall>rest. code ?s t \<noteq> Cout ''Created coffee!'' # rest) \<and>
      (\<forall>rest. code ?s t \<noteq> Cout ''Created toast!'' # rest) \<and>
      code ?s t \<noteq> [Cout endl]" if m: "mutex ?s = Some t"
  proof -
    note cs = critical_section [OF m]
    from cs have "(\<forall>d rest. code ?s t \<noteq> SleepFor d # rest) \<and>
      (\<forall>rest. code ?s t \<noteq> Cout ''Created coffee!'' # rest) \<and>
      (\<forall>rest. code ?s t \<noteq> Cout ''Created toast!'' # rest) \<and>
      code ?s t \<noteq> [Cout endl]"
      by (auto simp: program_defs endl_def)
    with cs holder_can_step(2) [OF m] show ?thesis by blast
  qed
  show ?thesis using 1 2 3 4 by blast
qed

theorem guard_witness:
  "mutex (main_with 3 coffee_locked) = Some coffee \<and>
   code (main_with 3 coffee_locked) coffee = drop 1 (threads 3 coffee) \<and>
   wake (main_with 3 coffee_locked) coffee = None \<and>
   inside coffee (main_with 3 coffee_locked)"
proof -
  have "mutex (main_with 3 coffee_locked) = Some coffee"
    by (simp add: run_defs coffee_locked_def)
  then show ?thesis
    using guard_only_around_start_message [of coffee_locked coffee]
    by (simp add: program_defs run_defs coffee_locked_def)
qed






text \<open>
  C2. The sequential program, identifier 1. A run that has reached \<^verbatim>\<open>return 0\<close> has executed
  the statements of \<^verbatim>\<open>main\<close> and \<^verbatim>\<open>Program_01_async::Run\<close> one after the other, so the
  console holds the banner, then \<^verbatim>\<open>Creating coffee...\<close>, \<^verbatim>\<open>Created coffee!\<close>,
  \<^verbatim>\<open>Creating toast...\<close>, \<^verbatim>\<open>Created toast!\<close> and the line of the total, in this order, whatever
  the scheduling. The two readings of the clock are at least 5000 ms apart, the sum of the two
  sleeps, and at most 5000 ms plus the scheduling overhead of the run (the time a thread that
  could run was kept waiting); with an overhead below one second the line of the total is
  \<^verbatim>\<open>Total time = 5 seconds\<close>. \<^verbatim>\<open>Run\<close> is the sequential scheduler \<open>run_sequential\<close> at the work
  units coffee, 2000 and toast, 3000; for every list of work units a finished run of that
  scheduler has executed the units in order, and its elapsed time is at least the sum of the
  durations and at most that sum plus the overhead.
\<close>

theorem sequential_run:
  "(exit_code (main_with 1 sch) = Some 0 \<longrightarrow>
      executed (main_with 1 sch) =
        [Cout ''Running program , 1...'', Cout endl, NowStart,
         Cout ''Creating coffee...'', Cout endl, SleepFor 2000, Cout ''Created coffee!'', Cout endl,
         Cout ''Creating toast...'', Cout endl, SleepFor 3000, Cout ''Created toast!'', Cout endl,
         NowStop, Cout ''Total time = '', CoutCount, Cout '' seconds'', Cout endl, Return 0] \<and>
      console (main_with 1 sch) =
        ''Running program , 1...'' @ endl @
        ''Creating coffee...'' @ endl @ ''Created coffee!'' @ endl @
        ''Creating toast...'' @ endl @ ''Created toast!'' @ endl @
        ''Total time = '' @ show_nat ((stop (main_with 1 sch) - start (main_with 1 sch)) div 1000)
           @ '' seconds'' @ endl \<and>
      start (main_with 1 sch) + 5000 \<le> stop (main_with 1 sch) \<and>
      stop (main_with 1 sch) \<le> start (main_with 1 sch) + 5000 + overhead sch (boot (threads 1)) \<and>
      (overhead sch (boot (threads 1)) < 1000 \<longrightarrow>
         console (main_with 1 sch) =
           ''Running program , 1...'' @ endl @
           ''Creating coffee...'' @ endl @ ''Created coffee!'' @ endl @
           ''Creating toast...'' @ endl @ ''Created toast!'' @ endl @
           ''Total time = 5 seconds'' @ endl)) \<and>
   Run_01 = run_sequential [(''coffee'', 2000), (''toast'', 3000)] \<and>
   (exit_code (exec sch (boot (sequential_threads units))) = Some 0 \<longrightarrow>
      executed (exec sch (boot (sequential_threads units))) = run_sequential units @ [Return 0] \<and>
      start (exec sch (boot (sequential_threads units))) + sum_list (map snd units)
        \<le> stop (exec sch (boot (sequential_threads units))) \<and>
      stop (exec sch (boot (sequential_threads units)))
        \<le> start (exec sch (boot (sequential_threads units))) + sum_list (map snd units)
           + overhead sch (boot (sequential_threads units)))"
  using sequential_fixed [of sch] Run_01_sequential sequential_units_executed [where sch = sch and units = units and v = 0]
    sequential_units_elapsed [where sch = sch and units = units and v = 0]
  by blast

theorem sequential_run_witness:
  "exit_code (main_with 1 ideal_01) = Some 0 \<and>
   overhead ideal_01 (boot (threads 1)) = 0 \<and>
   start (main_with 1 ideal_01) = 0 \<and> stop (main_with 1 ideal_01) = 5000 \<and>
   console (main_with 1 ideal_01) =
     ''Running program , 1...'' @ endl @ ''Creating coffee...'' @ endl @ ''Created coffee!'' @ endl @
     ''Creating toast...'' @ endl @ ''Created toast!'' @ endl @ ''Total time = 5 seconds'' @ endl \<and>
   exit_code (exec ideal_tea (boot (sequential_threads [(''tea'', 1000)]))) = Some 0 \<and>
   executed (exec ideal_tea (boot (sequential_threads [(''tea'', 1000)]))) =
     [NowStart, Cout ''Creating tea...'', Cout endl, SleepFor 1000, Cout ''Created tea!'', Cout endl,
      NowStop, Cout ''Total time = '', CoutCount, Cout '' seconds'', Cout endl, Return 0] \<and>
   stop (exec ideal_tea (boot (sequential_threads [(''tea'', 1000)]))) =
     start (exec ideal_tea (boot (sequential_threads [(''tea'', 1000)]))) + 1000"
proof -
  note a = sequential_run [where sch = ideal_01 and units = "[]"]
  from a ideal_01_run(1) ideal_01_overhead
  have 1: "console (main_with 1 ideal_01) =
     ''Running program , 1...'' @ endl @ ''Creating coffee...'' @ endl @ ''Created coffee!'' @ endl @
     ''Creating toast...'' @ endl @ ''Created toast!'' @ endl @ ''Total time = 5 seconds'' @ endl"
    by (metis zero_less_numeral)
  note b = sequential_run [where sch = ideal_tea and units = "[(''tea'', 1000)]"]
  from b ideal_tea_run(1)
  have "executed (exec ideal_tea (boot (sequential_threads [(''tea'', 1000)]))) =
      run_sequential [(''tea'', 1000)] @ [Return 0]" by blast
  then have 2: "executed (exec ideal_tea (boot (sequential_threads [(''tea'', 1000)]))) =
     [NowStart, Cout ''Creating tea...'', Cout endl, SleepFor 1000, Cout ''Created tea!'', Cout endl,
      NowStop, Cout ''Total time = '', CoutCount, Cout '' seconds'', Cout endl, Return 0]"
    by (simp add: run_sequential_def execute_def report_def)
  from b ideal_tea_run(1) ideal_tea_overhead
  have 3: "stop (exec ideal_tea (boot (sequential_threads [(''tea'', 1000)]))) =
     start (exec ideal_tea (boot (sequential_threads [(''tea'', 1000)]))) + 1000"
    by simp
  show ?thesis
    using 1 2 3 ideal_01_run(1,2,3) ideal_01_overhead ideal_tea_run(1) by blast
qed




theorem finish_order_not_guaranteed:
  "exit_code (main_with 3 late_coffee) = Some 0 \<and>
   stop (main_with 3 late_coffee) - start (main_with 3 late_coffee) = 3500 \<and>
   console (main_with 3 late_coffee) =
     ''Running program , 3...'' @ endl @ ''Creating coffee...'' @ endl @ ''Creating toast...'' @ endl @
     ''Created toast!'' @ endl @ ''Created coffee!'' @ endl @ ''Total time = 3 seconds'' @ endl \<and>
   \<not> precedes (\<lambda>c. c = Cout ''Created coffee!'') (\<lambda>c. c = Cout ''Created toast!'')
       (executed (main_with 3 late_coffee)) \<and>
   exit_code (main_with 3 late_toast) = Some 0 \<and>
   exit_code (main_with 1 ideal_01) = Some 0 \<and>
   stop (main_with 3 late_toast) - start (main_with 3 late_toast) = 5000 \<and>
   \<not> stop (main_with 3 late_toast) - start (main_with 3 late_toast)
       < stop (main_with 1 ideal_01) - start (main_with 1 ideal_01)"
  using late_coffee_run late_coffee_order late_toast_run ideal_01_run by simp

text \<open>
  C7. When the thread of a work unit cannot be created, the run is not aborted. The programs
  call \<^verbatim>\<open>std::async\<close> with the default launch policy and have no \<^verbatim>\<open>try\<close> block or other
  failure path: the unit is deferred and runs in \<^verbatim>\<open>main\<close> inside \<^verbatim>\<open>get\<close>. For the three
  asynchronous programs and every choice \<open>fails\<close> of the threads that cannot be created: no
  thread is launched for a unit that \<open>fails\<close> names and no statement runs in it; the only exit
  code is 0; a finished run has executed every statement of \<^verbatim>\<open>main\<close> and of both units, among
  them both finish messages, the second reading of the clock and the line of the total, which
  is on the console; when both threads fail, \<^verbatim>\<open>main\<close> executes everything itself, the two
  readings of the clock are at least 5000 ms apart, and \<^verbatim>\<open>02_async/main.cpp\<close> becomes the
  sequential scheduler at coffee, 2000 and toast, 3000; and a finished run exists. When no
  thread fails the program is unchanged.
\<close>

theorem creation_failure_defers:
  assumes P: "P = threads 2 \<or> P = threads 3 \<or> P = threads_02_async"
  shows
   "(\<not> fails coffee \<and> \<not> fails toast \<longrightarrow> deferred fails P = P) \<and>
    (\<forall>u. u \<noteq> 0 \<and> fails u \<longrightarrow>
        \<not> launched (exec sch (boot (deferred fails P))) u \<and>
        history u (exec sch (boot (deferred fails P))) = []) \<and>
    (exit_code (exec sch (boot (deferred fails P))) = Some v \<longrightarrow>
        v = 0 \<and>
        history 0 (exec sch (boot (deferred fails P))) = deferred fails P 0 \<and>
        set (P coffee) \<subseteq> set (executed (exec sch (boot (deferred fails P)))) \<and>
        set (P toast) \<subseteq> set (executed (exec sch (boot (deferred fails P)))) \<and>
        Cout ''Created coffee!'' \<in> set (executed (exec sch (boot (deferred fails P)))) \<and>
        Cout ''Created toast!'' \<in> set (executed (exec sch (boot (deferred fails P)))) \<and>
        NowStop \<in> set (executed (exec sch (boot (deferred fails P)))) \<and>
        Cout ''Total time = '' \<in> set (executed (exec sch (boot (deferred fails P)))) \<and>
        CoutCount \<in> set (executed (exec sch (boot (deferred fails P)))) \<and>
        (\<exists>pre post. console (exec sch (boot (deferred fails P))) = pre @ ''Total time = '' @ post)) \<and>
    (fails coffee \<and> fails toast \<and> exit_code (exec sch (boot (deferred fails P))) = Some v \<longrightarrow>
        executed (exec sch (boot (deferred fails P))) = deferred fails P 0 \<and>
        start (exec sch (boot (deferred fails P))) + 5000 \<le> stop (exec sch (boot (deferred fails P)))) \<and>
    (fails coffee \<and> fails toast \<longrightarrow>
        deferred fails threads_02_async = sequential_threads [(''coffee'', 2000), (''toast'', 3000)]) \<and>
    (\<exists>sch0. exit_code (exec sch0 (boot (deferred fails P))) = Some 0)"
proof -
  let ?s = "exec sch (boot (deferred fails P))"
  have r: "reach (deferred fails P) ?s" by (rule reach_exec)
  have 1: "deferred fails P = P" if "\<not> fails coffee \<and> \<not> fails toast"
    using deferred_none [OF P] that by blast
  have 2: "\<not> launched ?s u \<and> history u ?s = []" if "u \<noteq> 0 \<and> fails u" for u
    using deferred_not_launched [OF P r, of u] that by blast
  have 3: "v = 0 \<and> history 0 ?s = deferred fails P 0 \<and>
        set (P coffee) \<subseteq> set (executed ?s) \<and> set (P toast) \<subseteq> set (executed ?s) \<and>
        Cout ''Created coffee!'' \<in> set (executed ?s) \<and>
        Cout ''Created toast!'' \<in> set (executed ?s) \<and>
        NowStop \<in> set (executed ?s) \<and>
        Cout ''Total time = '' \<in> set (executed ?s) \<and>
        CoutCount \<in> set (executed ?s) \<and>
        (\<exists>pre post. console ?s = pre @ ''Total time = '' @ post)"
    if x: "exit_code ?s = Some v"
  proof -
    note d = deferred_units_done [OF P r x]
    from P have "Cout ''Created coffee!'' \<in> set (P coffee)" "Cout ''Created toast!'' \<in> set (P toast)"
      by (auto simp: program_defs)
    with d(1,2) have a: "Cout ''Created coffee!'' \<in> set (executed ?s)"
      "Cout ''Created toast!'' \<in> set (executed ?s)" by blast+
    from d(3) have b: "NowStop \<in> set (executed ?s)" "Cout ''Total time = '' \<in> set (executed ?s)"
      "CoutCount \<in> set (executed ?s)" by (simp_all add: report_def)
    from written [OF deferred_console [OF P r] b(2)]
    have c: "\<exists>pre post. console ?s = pre @ ''Total time = '' @ post" .
    from deferred_exited [OF P r x] a b c d(1,2) show ?thesis by blast
  qed
  have 4: "executed ?s = deferred fails P 0 \<and> start ?s + 5000 \<le> stop ?s"
    if f: "fails coffee \<and> fails toast \<and> exit_code ?s = Some v"
  proof -
    from f have x: "exit_code ?s = Some v" and fc: "fails coffee" and ft: "fails toast" by simp_all
    have "Async u \<notin> set (deferred fails P t)" for t u
      using P fc ft by (auto simp: deferred_def program_defs split: if_splits)
    with r have "executed ?s = history 0 ?s" by (rule single_thread)
    with deferred_exited(2) [OF P r x] deferred_all_elapsed [OF P fc ft r x] show ?thesis by simp
  qed
  have 5: "deferred fails threads_02_async = sequential_threads [(''coffee'', 2000), (''toast'', 3000)]"
    if "fails coffee \<and> fails toast"
    using deferred_all_02_async that by blast
  have 6: "\<exists>sch0. exit_code (exec sch0 (boot (deferred fails P))) = Some 0"
    using patient_exits [OF P] by blast
  show ?thesis using 1 2 3 4 5 6 by blast
qed

theorem creation_failure_witness:
  "exit_code (exec patient (boot (deferred (\<lambda>t. t = coffee) (threads 3)))) = Some 0 \<and>
   \<not> launched (exec patient (boot (deferred (\<lambda>t. t = coffee) (threads 3)))) coffee \<and>
   history coffee (exec patient (boot (deferred (\<lambda>t. t = coffee) (threads 3)))) = [] \<and>
   Cout ''Created coffee!'' \<in> set (executed (exec patient (boot (deferred (\<lambda>t. t = coffee) (threads 3))))) \<and>
   Cout ''Total time = '' \<in> set (executed (exec patient (boot (deferred (\<lambda>t. t = coffee) (threads 3))))) \<and>
   exit_code (exec patient (boot (deferred (\<lambda>t. True) (threads 2)))) = Some 0 \<and>
   start (exec patient (boot (deferred (\<lambda>t. True) (threads 2)))) + 5000
     \<le> stop (exec patient (boot (deferred (\<lambda>t. True) (threads 2))))"
proof -
  have P3: "threads 3 = threads 2 \<or> threads 3 = threads 3 \<or> threads 3 = threads_02_async" by simp
  have P2: "threads 2 = threads 2 \<or> threads 2 = threads 3 \<or> threads 2 = threads_02_async" by simp
  note a = creation_failure_defers [OF P3, where fails = "\<lambda>t. t = coffee" and sch = patient and v = 0]
  note b = creation_failure_defers [OF P2, where fails = "\<lambda>t. True" and sch = patient and v = 0]
  have x: "exit_code (exec patient (boot (deferred (\<lambda>t. t = coffee) (threads 3)))) = Some 0"
    "exit_code (exec patient (boot (deferred (\<lambda>t. True) (threads 2)))) = Some 0"
    by (rule patient_exits_3, rule patient_exits_2)
  have c: "coffee \<noteq> 0" by (simp add: coffee_def)
  from a c have 1: "\<not> launched (exec patient (boot (deferred (\<lambda>t. t = coffee) (threads 3)))) coffee"
    "history coffee (exec patient (boot (deferred (\<lambda>t. t = coffee) (threads 3)))) = []"
    by blast+
  from a x(1) have 2:
    "Cout ''Created coffee!'' \<in> set (executed (exec patient (boot (deferred (\<lambda>t. t = coffee) (threads 3)))))"
    "Cout ''Total time = '' \<in> set (executed (exec patient (boot (deferred (\<lambda>t. t = coffee) (threads 3)))))"
    by blast+
  from b x(2) have 3: "start (exec patient (boot (deferred (\<lambda>t. True) (threads 2)))) + 5000
     \<le> stop (exec patient (boot (deferred (\<lambda>t. True) (threads 2))))"
    by blast
  show ?thesis using x 1 2 3 by blast
qed

theorem creation_failure_reports_total:
  "exit_code (exec patient (boot (deferred (\<lambda>t. True) (threads 3)))) = Some 0 \<and>
   console (exec patient (boot (deferred (\<lambda>t. True) (threads 3)))) =
     ''Running program , 3...'' @ endl @ ''Creating coffee...'' @ endl @ ''Created coffee!'' @ endl @
     ''Creating toast...'' @ endl @ ''Created toast!'' @ endl @ ''Total time = 5 seconds'' @ endl \<and>
   executed (exec patient (boot (deferred (\<lambda>t. True) (threads 3)))) =
     [Cout ''Running program , 3...'', Cout endl, NowStart,
      LockGuard, Cout ''Creating coffee...'', Cout endl, Release,
      SleepFor 2000, Cout ''Created coffee!'', Cout endl,
      LockGuard, Cout ''Creating toast...'', Cout endl, Release,
      SleepFor 3000, Cout ''Created toast!'', Cout endl,
      NowStop, Cout ''Total time = '', CoutCount, Cout '' seconds'', Cout endl, Return 0] \<and>
   map ev_tid (trace (exec patient (boot (deferred (\<lambda>t. True) (threads 3))))) =
     [0, 0, 0, 0, 0, 0, 0, 0, 0, 0, 0, 0, 0, 0, 0, 0, 0, 0, 0, 0, 0, 0, 0]"
  using deferred_run by blast


end
